theory Spec2Isabelle
  imports Complex_Main "HOL-Library.Multiset"
begin

section \<open>Text primitives\<close>

text \<open>
  The program is one Python function, \<^verbatim>\<open>process_tdl_invoice\<close>. Its text is modelled as
  \<open>string\<close>, one \<open>char\<close> per code point below 256. On that alphabet Python's
  \<^verbatim>\<open>\d\<close> matches the ten ASCII digits, and both \<^verbatim>\<open>\s\<close> and \<^verbatim>\<open>str.split()\<close> use the
  same twelve whitespace characters.
\<close>

definition is_digit :: "char \<Rightarrow> bool" where
  "is_digit c = (c \<in> set ''0123456789'')"

definition is_space :: "char \<Rightarrow> bool" where
  "is_space c = (c \<in> set [CHR 0x09, CHR 0x0A, CHR 0x0B, CHR 0x0C, CHR 0x0D,
                             CHR 0x1C, CHR 0x1D, CHR 0x1E, CHR 0x1F, CHR 0x20,
                             CHR 0x85, CHR 0xA0])"

definition digit_val :: "char \<Rightarrow> nat" where
  "digit_val c = of_char c - 48"

text \<open>\<^verbatim>\<open>line.split()\<close>: the maximal runs of non-whitespace characters, in order.\<close>

function py_split :: "string \<Rightarrow> string list" where
  "py_split s =
     (case dropWhile is_space s of
        [] \<Rightarrow> []
      | c # cs \<Rightarrow> takeWhile (\<lambda>x. \<not> is_space x) (c # cs)
                  # py_split (dropWhile (\<lambda>x. \<not> is_space x) (c # cs)))"
  by pat_completeness auto
termination
proof (relation "measure length")
  show "wf (measure length)" by simp
next
  fix s :: string and c cs
  assume a: "dropWhile is_space s = c # cs"
  have "length (dropWhile (\<lambda>x. \<not> is_space x) (c # cs)) \<le> length cs"
  proof -
    have "\<not> is_space c" using a by (metis hd_dropWhile list.sel(1) list.distinct(1))
    then show ?thesis by (simp add: length_dropWhile_le)
  qed
  moreover have "length (c # cs) \<le> length s"
    using a length_dropWhile_le [of is_space s] by simp
  ultimately show "(dropWhile (\<lambda>x. \<not> is_space x) (c # cs), s) \<in> measure length"
    by simp
qed

declare py_split.simps [simp del]

text \<open>\<^verbatim>\<open>text.split('\n')\<close>: split at every newline, keeping empty pieces.\<close>

fun split_lines :: "string \<Rightarrow> string list" where
  "split_lines [] = [[]]"
| "split_lines (c # cs) =
     (if c = CHR 0x0A then [] # split_lines cs
      else (case split_lines cs of
              [] \<Rightarrow> [[c]]
            | w # ws \<Rightarrow> (c # w) # ws))"

text \<open>\<^verbatim>\<open>str.zfill(width)\<close>: pad with zeros on the left, after a leading sign if there is one.\<close>

definition zfill :: "nat \<Rightarrow> string \<Rightarrow> string" where
  "zfill width s =
     (if width \<le> length s then s
      else (case s of
              [] \<Rightarrow> replicate width CHR ''0''
            | c # cs \<Rightarrow>
                if c = CHR ''+'' \<or> c = CHR ''-''
                then c # replicate (width - length s) CHR ''0'' @ cs
                else replicate (width - length s) CHR ''0'' @ s))"

section \<open>Regular expressions\<close>

text \<open>
  Every pattern of the program is a sequence of single-character atoms (\<^verbatim>\<open>\d\<close>, \<^verbatim>\<open>\s\<close> or a
  literal character), each with a greedy repetition count, with one capture group and
  possibly a final \<^verbatim>\<open>$\<close>. \<open>Rep c lo hi cap\<close> is the atom \<open>c\<close> repeated between \<open>lo\<close>
  and \<open>hi\<close> times (\<open>None\<close>: unbounded); \<open>cap\<close> says that the atom lies inside group 1.

  \<open>rx_match\<close> is \<^verbatim>\<open>re.match\<close>: it anchors at the start of the string, which makes a leading
  \<^verbatim>\<open>^\<close> redundant. As Python's matcher does, it gives each atom the longest run first and
  backtracks to shorter ones. It returns the text of group 1 and the unmatched rest.
  \<open>rx_search\<close> is \<^verbatim>\<open>re.search\<close>: the match at the leftmost start position that has one.
\<close>

datatype cclass = Digit | Space | Lit char

fun in_class :: "cclass \<Rightarrow> char \<Rightarrow> bool" where
  "in_class Digit c = is_digit c"
| "in_class Space c = is_space c"
| "in_class (Lit l) c = (c = l)"

datatype piece = Rep cclass nat "nat option" bool | Eos

fun first_down :: "(nat \<Rightarrow> 'a option) \<Rightarrow> nat \<Rightarrow> nat \<Rightarrow> 'a option" where
  "first_down k lo 0 = (if 0 < lo then None else k 0)"
| "first_down k lo (Suc m) =
     (if Suc m < lo then None
      else (case k (Suc m) of Some r \<Rightarrow> Some r | None \<Rightarrow> first_down k lo m))"

text \<open>\<^verbatim>\<open>$\<close> matches at the end of the string and just before a newline that ends it.\<close>

definition at_end :: "string \<Rightarrow> bool" where
  "at_end s = (s = [] \<or> s = [CHR 0x0A])"

fun rx_match :: "piece list \<Rightarrow> string \<Rightarrow> (string \<times> string) option" where
  "rx_match [] s = Some ([], s)"
| "rx_match (Eos # ps) s = (if at_end s then rx_match ps s else None)"
| "rx_match (Rep c lo hi cap # ps) s =
     (let avail = length (takeWhile (in_class c) s);
          top = (case hi of None \<Rightarrow> avail | Some h \<Rightarrow> min h avail)
      in first_down
           (\<lambda>n. case rx_match ps (drop n s) of
                   None \<Rightarrow> None
                 | Some (g, rest) \<Rightarrow> Some ((if cap then take n s else []) @ g, rest))
           lo top)"

fun rx_search :: "piece list \<Rightarrow> string \<Rightarrow> (string \<times> string) option" where
  "rx_search ps [] = rx_match ps []"
| "rx_search ps (c # cs) =
     (case rx_match ps (c # cs) of Some r \<Rightarrow> Some r | None \<Rightarrow> rx_search ps cs)"

definition lit :: "string \<Rightarrow> piece list" where
  "lit s = map (\<lambda>c. Rep (Lit c) 1 (Some 1) False) s"

text \<open>\<^verbatim>\<open>\s+\<close>, \<^verbatim>\<open>\s*\<close> and the captured \<^verbatim>\<open>(\d+\.\d+)\<close>.\<close>

definition spaces1 :: "piece list" where
  "spaces1 = [Rep Space 1 None False]"

definition spaces0 :: "piece list" where
  "spaces0 = [Rep Space 0 None False]"

definition decimal_group :: "piece list" where
  "decimal_group = [Rep Digit 1 None True, Rep (Lit CHR ''.'') 1 (Some 1) True, Rep Digit 1 None True]"

text \<open>The patterns, in the order the source uses them.\<close>

definition invoice_rx :: "piece list" where
  \<comment> \<open>\<^verbatim>\<open>Invoice Number\s*:\s*(\d+)\<close>\<close>
  "invoice_rx = lit ''Invoice Number'' @ spaces0 @ lit '':'' @ spaces0 @ [Rep Digit 1 None True]"

definition item_code_rx :: "piece list" where
  \<comment> \<open>\<^verbatim>\<open>^(\d{5,8})\s\<close>\<close>
  "item_code_rx = [Rep Digit 5 (Some 8) True, Rep Space 1 (Some 1) False]"

definition decimal_token_rx :: "piece list" where
  \<comment> \<open>\<^verbatim>\<open>^\d+\.?\d*$\<close>\<close>
  "decimal_token_rx =
     [Rep Digit 1 None False, Rep (Lit CHR ''.'') 0 (Some 1) False, Rep Digit 0 None False, Eos]"

definition integer_token_rx :: "piece list" where
  \<comment> \<open>\<^verbatim>\<open>^\d+$\<close>\<close>
  "integer_token_rx = [Rep Digit 1 None False, Eos]"

definition tariff_rx :: "piece list" where
  \<comment> \<open>\<^verbatim>\<open>Tariff Allocation\s+(\d+\.\d+)\<close>\<close>
  "tariff_rx = lit ''Tariff Allocation'' @ spaces1 @ decimal_group"

definition fuel_primary_rx :: "piece list" where
  \<comment> \<open>\<^verbatim>\<open>Fuel Surcharge\s+\d+\.\d+\s+0\.00\s+(\d+\.\d+)\<close>\<close>
  "fuel_primary_rx =
     lit ''Fuel Surcharge'' @ spaces1
     @ [Rep Digit 1 None False, Rep (Lit CHR ''.'') 1 (Some 1) False, Rep Digit 1 None False]
     @ spaces1 @ lit ''0.00'' @ spaces1 @ decimal_group"

definition fuel_alternate_rx :: "piece list" where
  \<comment> \<open>\<^verbatim>\<open>Fuel Surcharge\s+(\d+\.\d+)\<close>\<close>
  "fuel_alternate_rx = lit ''Fuel Surcharge'' @ spaces1 @ decimal_group"

definition gst_rx :: "piece list" where
  \<comment> \<open>\<^verbatim>\<open>GST/HST/VAT\s+(\d+\.\d+)\<close>\<close>
  "gst_rx = lit ''GST/HST/VAT'' @ spaces1 @ decimal_group"

section \<open>Numbers\<close>

text \<open>
  The exceptions the program's own code can raise. \<open>Inl e\<close> is a raised exception.
\<close>

datatype py_error = IndexError | ValueError | OverflowError

text \<open>
  A Python float is represented by the exact rational value of the decimal it was read
  from, and arithmetic on floats is exact: the rounding of IEEE-754 doubles to 53 bits is
  not part of this model. The range of a double is: a decimal of value at least
  \<open>DBL_OVERFLOW\<close> reads as \<^verbatim>\<open>inf\<close>, and \<^verbatim>\<open>int(inf)\<close> raises \<^verbatim>\<open>OverflowError\<close>.
\<close>

definition DBL_OVERFLOW :: rat where
  "DBL_OVERFLOW = 2 ^ 1024 - 2 ^ 970"

definition dec_val :: "string \<Rightarrow> nat" where
  "dec_val s = foldl (\<lambda>a c. 10 * a + digit_val c) 0 s"

text \<open>
  \<^verbatim>\<open>float(s)\<close> on an unsigned decimal: digits with an optional point, at least one digit.
  Every string the program passes to \<^verbatim>\<open>float\<close> has gone through one of the patterns above.
  Any other string is reported as \<^verbatim>\<open>ValueError\<close> here, although Python reads more of them
  (signs, exponents, \<^verbatim>\<open>inf\<close>, \<^verbatim>\<open>nan\<close>, underscores, surrounding blanks).
\<close>

definition py_float :: "string \<Rightarrow> py_error + rat" where
  "py_float s =
     (let ip = takeWhile is_digit s in
      case dropWhile is_digit s of
        [] \<Rightarrow> if ip = [] then Inl ValueError else Inr (of_nat (dec_val ip))
      | c # fp \<Rightarrow>
          if c = CHR ''.'' \<and> list_all is_digit fp \<and> (ip \<noteq> [] \<or> fp \<noteq> [])
          then Inr (of_nat (dec_val (ip @ fp)) / 10 ^ length fp)
          else Inl ValueError)"

text \<open>\<^verbatim>\<open>int(x)\<close> on a float: truncation towards zero; infinity cannot be converted.\<close>

definition py_int :: "rat \<Rightarrow> py_error + int" where
  "py_int x =
     (if DBL_OVERFLOW \<le> \<bar>x\<bar> then Inl OverflowError
      else Inr (if 0 \<le> x then \<lfloor>x\<rfloor> else \<lceil>x\<rceil>))"

text \<open>\<^verbatim>\<open>round(x, 2)\<close>: to the nearest multiple of 0.01, an exact tie going to the even one.\<close>

definition py_round2 :: "rat \<Rightarrow> rat" where
  "py_round2 x =
     (let n = x * 100; f = \<lfloor>n\<rfloor>; d = n - of_int f
      in of_int (if d < 1 / 2 then f
                 else if 1 / 2 < d then f + 1
                 else if even f then f else f + 1) / 100)"

text \<open>\<^verbatim>\<open>xs[i]\<close> for a non-negative index.\<close>

definition py_index :: "'a list \<Rightarrow> nat \<Rightarrow> py_error + 'a" where
  "py_index xs i = (if i < length xs then Inr (xs ! i) else Inl IndexError)"

section \<open>The reference table\<close>

text \<open>
  A cell of the spreadsheet as pandas reads it: an integer or a string. A row has the
  three required columns; the check for missing columns comes before everything modelled
  here.
\<close>

datatype cell = IntCell int | StrCell string

record db_row =
  col_item_code :: cell
  col_gl_code :: cell
  col_gl_description :: cell

definition digit_char :: "nat \<Rightarrow> char" where
  "digit_char d = ''0123456789'' ! d"

fun dec_digits :: "nat \<Rightarrow> string" where
  "dec_digits n =
     (if n < 10 then [digit_char n] else dec_digits (n div 10) @ [digit_char (n mod 10)])"

declare dec_digits.simps [simp del]

text \<open>\<^verbatim>\<open>str(x)\<close> of a cell.\<close>

fun py_str :: "cell \<Rightarrow> string" where
  "py_str (StrCell s) = s"
| "py_str (IntCell i) = (if i < 0 then CHR ''-'' # dec_digits (nat (- i)) else dec_digits (nat i))"

text \<open>\<^verbatim>\<open>db["Item Code"] = db["Item Code"].astype(str)\<close>\<close>

definition astype_str :: "db_row list \<Rightarrow> db_row list" where
  "astype_str db = map (\<lambda>r. r\<lparr>col_item_code := StrCell (py_str (col_item_code r))\<rparr>) db"

text \<open>\<^verbatim>\<open>db[db["Item Code"] == item_code]\<close>: the rows with that item code, in table order.\<close>

definition db_select :: "db_row list \<Rightarrow> string \<Rightarrow> db_row list" where
  "db_select db item_code = filter (\<lambda>r. col_item_code r = StrCell item_code) db"

definition NOT_FOUND :: cell where
  "NOT_FOUND = StrCell ''NOT_FOUND''"

text \<open>The lookup of lines 130 to 136: the defaults, replaced by row 0 of the selection.\<close>

definition lookup_gl :: "db_row list \<Rightarrow> string \<Rightarrow> cell \<times> cell" where
  "lookup_gl db item_code =
     (case db_select db item_code of
        [] \<Rightarrow> (NOT_FOUND, NOT_FOUND)
      | r # _ \<Rightarrow> (col_gl_code r, col_gl_description r))"

section \<open>Line items\<close>

record item =
  item_code :: string
  quantity :: int
  unit_price :: rat
  line_total :: rat
  gl_code :: cell
  gl_description :: cell

text \<open>Lines 103 to 108: the item code at the start of a line, padded to 8 digits.\<close>

definition line_item_code :: "string \<Rightarrow> string option" where
  "line_item_code line =
     (case rx_match item_code_rx line of
        None \<Rightarrow> None
      | Some (g, _) \<Rightarrow> Some (if length g < 8 then zfill 8 g else g))"

text \<open>Lines 111 to 117: the parts of the line that look like numbers.\<close>

definition is_numeric_token :: "string \<Rightarrow> bool" where
  "is_numeric_token part =
     (rx_match decimal_token_rx part \<noteq> None \<or> rx_match integer_token_rx part \<noteq> None)"

definition numeric_tokens :: "string \<Rightarrow> string list" where
  "numeric_tokens line = filter is_numeric_token (py_split line)"

text \<open>Lines 125 to 146, the body of the \<^verbatim>\<open>try\<close>.\<close>

definition try_body :: "db_row list \<Rightarrow> string \<Rightarrow> string list \<Rightarrow> py_error + item" where
  "try_body db code numbers =
     (case py_index numbers 1 of Inl e \<Rightarrow> Inl e | Inr n1 \<Rightarrow>
      case py_float n1 of Inl e \<Rightarrow> Inl e | Inr f1 \<Rightarrow>
      case py_int f1 of Inl e \<Rightarrow> Inl e | Inr qty \<Rightarrow>
      case py_index numbers 3 of Inl e \<Rightarrow> Inl e | Inr n3 \<Rightarrow>
      case py_float n3 of Inl e \<Rightarrow> Inl e | Inr price \<Rightarrow>
        Inr \<lparr>item_code = code, quantity = qty, unit_price = price,
             line_total = py_round2 (of_int qty * price),
             gl_code = fst (lookup_gl db code),
             gl_description = snd (lookup_gl db code)\<rparr>)"

text \<open>
  What one line does to the loop: nothing because it has no item code, nothing because it
  has too few numbers (\<^verbatim>\<open>continue\<close>), nothing because \<^verbatim>\<open>except (IndexError, ValueError)\<close>
  caught the exception, or one more item. Any other exception leaves the loop.
\<close>

datatype line_outcome = NotItem | TooFewNumbers | ParseFailed py_error | Appended item

definition process_line :: "db_row list \<Rightarrow> string \<Rightarrow> py_error + line_outcome" where
  "process_line db line =
     (case line_item_code line of
        None \<Rightarrow> Inr NotItem
      | Some code \<Rightarrow>
          let numbers = numeric_tokens line in
          if length numbers < 4 then Inr TooFewNumbers
          else (case try_body db code numbers of
                  Inr it \<Rightarrow> Inr (Appended it)
                | Inl IndexError \<Rightarrow> Inr (ParseFailed IndexError)
                | Inl ValueError \<Rightarrow> Inr (ParseFailed ValueError)
                | Inl e \<Rightarrow> Inl e))"

fun process_lines :: "db_row list \<Rightarrow> string list \<Rightarrow> item list \<Rightarrow> py_error + item list" where
  "process_lines db [] items = Inr items"
| "process_lines db (line # lines) items =
     (case process_line db line of
        Inl e \<Rightarrow> Inl e
      | Inr (Appended it) \<Rightarrow> process_lines db lines (items @ [it])
      | Inr _ \<Rightarrow> process_lines db lines items)"

section \<open>Pages\<close>

text \<open>The variables the page loop assigns (lines 77 to 81).\<close>

record extraction =
  items :: "item list"
  invoice_number :: "string option"
  tariff_amount :: rat
  fuel_surcharge :: rat
  gst_hst_vat :: rat

definition initial_extraction :: extraction where
  "initial_extraction =
     \<lparr>items = [], invoice_number = None, tariff_amount = 0, fuel_surcharge = 0, gst_hst_vat = 0\<rparr>"

text \<open>
  \<^verbatim>\<open>m = re.search(rx, text)\<close> followed by \<^verbatim>\<open>if m: x = float(m.group(1))\<close>: without a match
  the variable keeps its value.
\<close>

definition extract_amount :: "piece list \<Rightarrow> string \<Rightarrow> rat \<Rightarrow> py_error + rat" where
  "extract_amount rx text old =
     (case rx_search rx text of
        None \<Rightarrow> Inr old
      | Some (g, _) \<Rightarrow> py_float g)"

text \<open>Lines 157 to 165: the fuel surcharge, with its alternate format.\<close>

definition extract_fuel :: "string \<Rightarrow> rat \<Rightarrow> py_error + rat" where
  "extract_fuel text old =
     (case rx_search fuel_primary_rx text of
        Some (g, _) \<Rightarrow> py_float g
      | None \<Rightarrow>
          (case rx_search fuel_alternate_rx text of
             Some (g, _) \<Rightarrow> py_float g
           | None \<Rightarrow> Inr old))"

text \<open>
  One turn of the loop over the pages (lines 88 to 170), for page \<open>page_num\<close> of \<open>npages\<close>.
  \<^verbatim>\<open>not invoice_number\<close> holds for \<^verbatim>\<open>None\<close> and for the empty string.
\<close>

definition process_page ::
  "db_row list \<Rightarrow> nat \<Rightarrow> nat \<Rightarrow> string \<Rightarrow> extraction \<Rightarrow> py_error + extraction" where
  "process_page db npages page_num text st =
     (let st1 =
        (if page_num = 0 \<and> (invoice_number st = None \<or> invoice_number st = Some [])
         then (case rx_search invoice_rx text of
                 Some (g, _) \<Rightarrow> st\<lparr>invoice_number := Some g\<rparr>
               | None \<Rightarrow> st)
         else st)
      in case process_lines db (split_lines text) (items st1) of
           Inl e \<Rightarrow> Inl e
         | Inr its \<Rightarrow>
             let st2 = st1\<lparr>items := its\<rparr> in
             if int page_num = int npages - 1
             then (case extract_amount tariff_rx text (tariff_amount st2) of Inl e \<Rightarrow> Inl e | Inr t \<Rightarrow>
                   case extract_fuel text (fuel_surcharge st2) of Inl e \<Rightarrow> Inl e | Inr f \<Rightarrow>
                   case extract_amount gst_rx text (gst_hst_vat st2) of Inl e \<Rightarrow> Inl e | Inr g \<Rightarrow>
                     Inr (st2\<lparr>tariff_amount := t, fuel_surcharge := f, gst_hst_vat := g\<rparr>))
             else Inr st2)"

fun process_pages ::
  "db_row list \<Rightarrow> nat \<Rightarrow> nat \<Rightarrow> string list \<Rightarrow> extraction \<Rightarrow> py_error + extraction" where
  "process_pages db npages page_num [] st = Inr st"
| "process_pages db npages page_num (text # texts) st =
     (case process_page db npages page_num text st of
        Inl e \<Rightarrow> Inl e
      | Inr st' \<Rightarrow> process_pages db npages (Suc page_num) texts st')"

section \<open>The summary\<close>

text \<open>
  A Python \<^verbatim>\<open>dict\<close> keeps its keys in the order of their first insertion, and the loop of
  line 200 reads it in that order: it is an association list with one pair per key.
\<close>

definition dict_get :: "('k \<times> 'v) list \<Rightarrow> 'k \<Rightarrow> 'v \<Rightarrow> 'v" where
  "dict_get d k dflt = (case map_of d k of None \<Rightarrow> dflt | Some v \<Rightarrow> v)"

fun dict_set :: "('k \<times> 'v) list \<Rightarrow> 'k \<Rightarrow> 'v \<Rightarrow> ('k \<times> 'v) list" where
  "dict_set [] k v = [(k, v)]"
| "dict_set ((k', v') # d) k v =
     (if k' = k then (k', v) # d else (k', v') # dict_set d k v)"

text \<open>Lines 191 to 194.\<close>

definition summarize :: "item list \<Rightarrow> (cell \<times> rat) list" where
  "summarize its =
     foldl (\<lambda>summary it.
              dict_set summary (gl_description it)
                (dict_get summary (gl_description it) 0 + line_total it))
       [] its"

text \<open>
  \<^verbatim>\<open>sorted(xs, key=lambda x: x[1], reverse=True)\<close>. The sort is stable, and with
  \<^verbatim>\<open>reverse=True\<close> it still keeps elements of equal key in their original order: the list
  is reversed, sorted in ascending order, and reversed again.
\<close>

definition sorted_desc :: "('k \<times> rat) list \<Rightarrow> ('k \<times> rat) list" where
  "sorted_desc xs = rev (sort_key snd (rev xs))"

text \<open>What the function prints after the loop (lines 176 to 207).\<close>

record report =
  rep_items :: "item list"
  rep_invoice_number :: "string option"
  rep_tariff_amount :: rat
  rep_fuel_surcharge :: rat
  rep_gst_hst_vat :: rat
  rep_summary :: "(cell \<times> rat) list"
  rep_total_amount :: rat
  rep_additional_charges :: rat
  rep_grand_total :: rat

definition make_report :: "extraction \<Rightarrow> report" where
  "make_report st =
     (let lines = sorted_desc (summarize (items st));
          total_amount = foldl (\<lambda>total (gl_desc, amount). total + amount) 0 lines
      in \<lparr>rep_items = items st,
          rep_invoice_number = invoice_number st,
          rep_tariff_amount = tariff_amount st,
          rep_fuel_surcharge = fuel_surcharge st,
          rep_gst_hst_vat = gst_hst_vat st,
          rep_summary = lines,
          rep_total_amount = total_amount,
          rep_additional_charges = tariff_amount st + fuel_surcharge st + gst_hst_vat st,
          rep_grand_total = total_amount + tariff_amount st + fuel_surcharge st + gst_hst_vat st\<rparr>)"

text \<open>
  The function, from the rows of the spreadsheet and the text of the pages. An exception in
  the page loop is caught by \<^verbatim>\<open>except Exception\<close> (line 172), which prints it and returns:
  nothing of lines 176 to 207 is printed then.
\<close>

definition process_tdl_invoice :: "db_row list \<Rightarrow> string list \<Rightarrow> py_error + report" where
  "process_tdl_invoice table pages =
     (case process_pages (astype_str table) (length pages) 0 pages initial_extraction of
        Inl e \<Rightarrow> Inl e
      | Inr st \<Rightarrow> Inr (make_report st))"

section \<open>Properties of the matcher\<close>

lemma digit_not_space: "is_digit c \<Longrightarrow> \<not> is_space c"
  by (auto simp: is_digit_def is_space_def)

lemma first_down_None_iff:
  "first_down k lo n = None \<longleftrightarrow> (\<forall>m. lo \<le> m \<and> m \<le> n \<longrightarrow> k m = None)"
proof (induction n)
  case 0
  show ?case by (cases "0 < lo") auto
next
  case (Suc n)
  show ?case
  proof (cases "Suc n < lo")
    case True
    then have "first_down k lo (Suc n) = None" by simp
    moreover have "\<forall>m. lo \<le> m \<and> m \<le> Suc n \<longrightarrow> k m = None" using True by auto
    ultimately show ?thesis by blast
  next
    case False
    show ?thesis
    proof (cases "k (Suc n)")
      case None
      have e: "first_down k lo (Suc n) = first_down k lo n" using False None by simp
      have h: "(\<forall>m. lo \<le> m \<and> m \<le> Suc n \<longrightarrow> k m = None) \<longleftrightarrow> (\<forall>m. lo \<le> m \<and> m \<le> n \<longrightarrow> k m = None)"
        using None by (metis le_Suc_eq)
      show ?thesis unfolding e Suc.IH by (rule sym) (rule h)
    next
      case (Some r)
      have b: "\<not> (\<forall>m. lo \<le> m \<and> m \<le> Suc n \<longrightarrow> k m = None)"
      proof
        assume x: "\<forall>m. lo \<le> m \<and> m \<le> Suc n \<longrightarrow> k m = None"
        have "lo \<le> Suc n \<and> Suc n \<le> Suc n" using False by simp
        then have "k (Suc n) = None" using x by (rule_tac mp [OF spec [OF x]])
        then show False using Some by simp
      qed
      have a: "first_down k lo (Suc n) \<noteq> None" using False Some by simp
      show ?thesis
      proof
        assume x: "first_down k lo (Suc n) = None"
        show "\<forall>m. lo \<le> m \<and> m \<le> Suc n \<longrightarrow> k m = None" using a x by contradiction
      next
        assume x: "\<forall>m. lo \<le> m \<and> m \<le> Suc n \<longrightarrow> k m = None"
        show "first_down k lo (Suc n) = None" using b x by contradiction
      qed
    qed
  qed
qed

lemma first_down_top:
  "lo \<le> n \<Longrightarrow> k n = Some r \<Longrightarrow> first_down k lo n = Some r"
  by (cases n) auto

lemma first_down_Some_iff:
  "first_down k lo n = Some r \<longleftrightarrow>
     (\<exists>m. lo \<le> m \<and> m \<le> n \<and> k m = Some r \<and> (\<forall>j. m < j \<and> j \<le> n \<longrightarrow> k j = None))"
proof (induction n)
  case 0
  then show ?case by auto
next
  case (Suc n)
  show ?case
  proof (cases "Suc n < lo")
    case True
    then show ?thesis by auto
  next
    case False
    show ?thesis
    proof (cases "k (Suc n)")
      case None
      have "first_down k lo (Suc n) = first_down k lo n" using False None by simp
      moreover have "(\<exists>m. lo \<le> m \<and> m \<le> Suc n \<and> k m = Some r \<and> (\<forall>j. m < j \<and> j \<le> Suc n \<longrightarrow> k j = None))
          \<longleftrightarrow> (\<exists>m. lo \<le> m \<and> m \<le> n \<and> k m = Some r \<and> (\<forall>j. m < j \<and> j \<le> n \<longrightarrow> k j = None))"
        (is "?L \<longleftrightarrow> ?R")
      proof
        assume ?L
        then obtain m where m: "lo \<le> m" "m \<le> Suc n" "k m = Some r" "\<forall>j. m < j \<and> j \<le> Suc n \<longrightarrow> k j = None"
          by blast
        have "m \<noteq> Suc n" using m(3) None by auto
        then have "m \<le> n" using m(2) by simp
        then show ?R using m by auto
      next
        assume ?R
        then obtain m where m: "lo \<le> m" "m \<le> n" "k m = Some r" "\<forall>j. m < j \<and> j \<le> n \<longrightarrow> k j = None"
          by blast
        have "\<forall>j. m < j \<and> j \<le> Suc n \<longrightarrow> k j = None"
          using m(4) None by (metis le_Suc_eq)
        then show ?L using m by (metis le_Suc_eq)
      qed
      ultimately show ?thesis using Suc by simp
    next
      case (Some r')
      have "first_down k lo (Suc n) = Some r'" using False Some by simp
      moreover have "(\<exists>m. lo \<le> m \<and> m \<le> Suc n \<and> k m = Some r \<and> (\<forall>j. m < j \<and> j \<le> Suc n \<longrightarrow> k j = None))
          \<longleftrightarrow> r' = r" (is "?L \<longleftrightarrow> _")
      proof
        assume ?L
        then obtain m where m: "lo \<le> m" "m \<le> Suc n" "k m = Some r" "\<forall>j. m < j \<and> j \<le> Suc n \<longrightarrow> k j = None"
          by blast
        have "m = Suc n"
        proof (rule ccontr)
          assume "m \<noteq> Suc n"
          then have "m < Suc n" using m(2) by simp
          then have "k (Suc n) = None" using m(4) by simp
          then show False using Some by simp
        qed
        then show "r' = r" using m(3) Some by simp
      next
        assume "r' = r"
        then show ?L using False Some by (intro exI [of _ "Suc n"]) auto
      qed
      ultimately show ?thesis by auto
    qed
  qed
qed

lemma in_class_Digit: "in_class Digit = is_digit"
  by (rule ext) simp

lemma in_class_Space: "in_class Space = is_space"
  by (rule ext) simp

lemma rx_match_one:
  "rx_match [Rep c (Suc 0) (Some (Suc 0)) cap] t =
     (case t of [] \<Rightarrow> None
      | x # xs \<Rightarrow> if in_class c x then Some ((if cap then [x] else []), xs) else None)"
proof (cases t)
  case Nil
  then show ?thesis by (simp add: Let_def)
next
  case (Cons x xs)
  show ?thesis
  proof (cases "in_class c x")
    case True
    then show ?thesis using Cons by (simp add: Let_def)
  next
    case False
    then show ?thesis using Cons by (simp add: Let_def)
  qed
qed

lemma rx_match_Rep:
  "rx_match (Rep c lo hi cap # ps) s =
     first_down
       (\<lambda>n. case rx_match ps (drop n s) of
               None \<Rightarrow> None
             | Some (g, rest) \<Rightarrow> Some ((if cap then take n s else []) @ g, rest))
       lo (case hi of None \<Rightarrow> length (takeWhile (in_class c) s)
                    | Some h \<Rightarrow> min h (length (takeWhile (in_class c) s)))"
  by (simp add: Let_def)

declare rx_match.simps(3) [simp del]

lemma drop_in_run:
  assumes "n < length (takeWhile P s)"
  shows "drop n s \<noteq> [] \<and> P (hd (drop n s))"
proof -
  have l: "n < length s" using assms length_takeWhile_le [of P s] by simp
  have "s ! n = takeWhile P s ! n" using assms by (simp add: takeWhile_nth)
  moreover have "takeWhile P s ! n \<in> set (takeWhile P s)" using assms by simp
  ultimately have "P (s ! n)" by (metis set_takeWhileD)
  then show ?thesis using l by (simp add: hd_drop_conv_nth)
qed

lemma rx_match_item_code:
  "rx_match item_code_rx s =
     (let d = takeWhile is_digit s; r = dropWhile is_digit s in
      if 5 \<le> length d \<and> length d \<le> 8 \<and> r \<noteq> [] \<and> is_space (hd r)
      then Some (d, tl r) else None)"
proof -
  define d where "d = takeWhile is_digit s"
  define r where "r = dropWhile is_digit s"
  define k where "k = (\<lambda>n. case rx_match [Rep Space 1 (Some 1) False] (drop n s) of
                   None \<Rightarrow> None
                 | Some (g, rest) \<Rightarrow> Some ((if True then take n s else []) @ g, rest))"
  have m: "rx_match item_code_rx s = first_down k 5 (min 8 (length d))"
    unfolding item_code_rx_def k_def d_def
    by (subst rx_match_Rep) (simp add: in_class_Digit)
  have below: "k n = None" if "n < length d" for n
  proof -
    have "drop n s \<noteq> [] \<and> is_digit (hd (drop n s))"
      using that drop_in_run [of n is_digit s] by (simp add: d_def)
    then obtain x xs where "drop n s = x # xs" "is_digit x"
      by (cases "drop n s") auto
    then show ?thesis using digit_not_space [of x] by (simp add: k_def rx_match_one)
  qed
  have at: "k (length d) = (if r \<noteq> [] \<and> is_space (hd r) then Some (d, tl r) else None)"
  proof -
    have "drop (length d) s = r" unfolding d_def r_def by (rule dropWhile_eq_drop [symmetric])
    moreover have "take (length d) s = d" unfolding d_def by (rule takeWhile_eq_take [symmetric])
    ultimately show ?thesis by (cases r) (auto simp: k_def rx_match_one)
  qed
  have res: "rx_match item_code_rx s =
      (if 5 \<le> length d \<and> length d \<le> 8 \<and> r \<noteq> [] \<and> is_space (hd r)
       then Some (d, tl r) else None)"
  proof (cases "5 \<le> length d \<and> length d \<le> 8 \<and> r \<noteq> [] \<and> is_space (hd r)")
    case True
    have e: "min 8 (length d) = length d" using True by linarith
    have "k (length d) = Some (d, tl r)" using at True by simp
    moreover have "5 \<le> length d" using True by blast
    ultimately have "first_down k 5 (length d) = Some (d, tl r)"
      by (rule first_down_top [rotated])
    then show ?thesis using True m e by simp
  next
    case False
    have "k n = None" if n: "5 \<le> n" "n \<le> min 8 (length d)" for n
    proof (cases "n < length d")
      case True
      then show ?thesis by (rule below)
    next
      case nl: False
      then have e: "n = length d" using n by linarith
      then have "5 \<le> length d \<and> length d \<le> 8" using n by linarith
      then have "\<not> (r \<noteq> [] \<and> is_space (hd r))" using False by blast
      then show ?thesis using at e by simp
    qed
    then have "first_down k 5 (min 8 (length d)) = None"
      unfolding first_down_None_iff by simp
    then show ?thesis using False m by simp
  qed
  show ?thesis
    unfolding Let_def d_def [symmetric] r_def [symmetric] by (rule res)
qed


lemma takeWhile_run:
  assumes "list_all P xs" and "rest = [] \<or> \<not> P (hd rest)"
  shows "takeWhile P (xs @ rest) = xs" and "dropWhile P (xs @ rest) = rest"
proof -
  have a: "\<forall>x \<in> set xs. P x" using assms(1) by (simp add: list_all_iff)
  have t: "takeWhile P rest = []" using assms(2) by (cases rest) auto
  have d: "dropWhile P rest = rest" using assms(2) by (cases rest) auto
  show "takeWhile P (xs @ rest) = xs" using a t by (simp add: takeWhile_append2)
  show "dropWhile P (xs @ rest) = rest" using a d by (simp add: dropWhile_append2)
qed

lemma zfill_digits:
  assumes "list_all is_digit ds" and "length ds < w"
  shows "zfill w ds = replicate (w - length ds) CHR ''0'' @ ds"
proof (cases ds)
  case Nil
  then show ?thesis using assms by (simp add: zfill_def)
next
  case (Cons c cs)
  then have "is_digit c" using assms(1) by simp
  then have "c \<noteq> CHR ''+'' \<and> c \<noteq> CHR ''-''" by (auto simp: is_digit_def)
  then show ?thesis using Cons assms(2) by (simp add: zfill_def)
qed

lemma line_item_code_eq:
  "line_item_code line =
     (let d = takeWhile is_digit line; r = dropWhile is_digit line in
      if 5 \<le> length d \<and> length d \<le> 8 \<and> r \<noteq> [] \<and> is_space (hd r)
      then Some (replicate (8 - length d) CHR ''0'' @ d) else None)"
proof -
  have z: "(if length d < 8 then zfill 8 d else d) = replicate (8 - length d) CHR ''0'' @ d"
    if "d = takeWhile is_digit line" for d
  proof -
    have "\<forall>x \<in> set d. is_digit x" using that by (auto dest: set_takeWhileD)
    then have "list_all is_digit d" by (simp add: list_all_iff)
    then show ?thesis by (simp add: zfill_digits)
  qed
  show ?thesis
    unfolding line_item_code_def rx_match_item_code Let_def using z by simp
qed

lemma line_item_code_run:
  assumes "list_all is_digit ds" and "5 \<le> length ds" and "length ds \<le> 8" and "is_space c"
  shows "line_item_code (ds @ c # rest) = Some (replicate (8 - length ds) CHR ''0'' @ ds)"
proof -
  have nd: "\<not> is_digit c" using assms(4) digit_not_space by blast
  have "takeWhile is_digit (ds @ c # rest) = ds" "dropWhile is_digit (ds @ c # rest) = c # rest"
    using takeWhile_run [of is_digit ds "c # rest"] assms(1) nd by simp_all
  then show ?thesis using assms by (simp add: line_item_code_eq)
qed

text \<open>
  Claim C4. A line that starts with a run of 5 to 8 digits followed by a whitespace
  character gives the item code made of that run padded on the left with \<open>0\<close> to exactly
  8 characters; a run of 8 digits is kept as it is. A line whose leading run of digits is
  shorter than 5 or longer than 8 has no item code, and the line loop does nothing with it.
\<close>

theorem item_code_canonical_form:
  "(list_all is_digit ds \<and> 5 \<le> length ds \<and> length ds \<le> 8 \<and> is_space c \<longrightarrow>
      line_item_code (ds @ c # rest) = Some (replicate (8 - length ds) CHR ''0'' @ ds)
      \<and> length (replicate (8 - length ds) CHR ''0'' @ ds) = 8
      \<and> (length ds = 8 \<longrightarrow> line_item_code (ds @ c # rest) = Some ds))
   \<and> (length (takeWhile is_digit line) < 5 \<or> 8 < length (takeWhile is_digit line) \<longrightarrow>
        line_item_code line = None \<and> process_line db line = Inr NotItem)"
proof (intro conjI impI)
  assume a: "list_all is_digit ds \<and> 5 \<le> length ds \<and> length ds \<le> 8 \<and> is_space c"
  then show r: "line_item_code (ds @ c # rest) = Some (replicate (8 - length ds) CHR ''0'' @ ds)"
    by (simp add: line_item_code_run)
  show "length (replicate (8 - length ds) CHR ''0'' @ ds) = 8" using a by simp
  show "line_item_code (ds @ c # rest) = Some ds" if "length ds = 8" using r that by simp
next
  assume a: "length (takeWhile is_digit line) < 5 \<or> 8 < length (takeWhile is_digit line)"
  then show n: "line_item_code line = None" by (auto simp: line_item_code_eq Let_def)
  then show "process_line db line = Inr NotItem" by (simp add: process_line_def)
qed

theorem item_code_canonical_form_witness:
  "line_item_code ''12345 2 5.00 1.00'' = Some ''00012345''
   \<and> line_item_code ''00012345   10   0.00   2.50   25.00'' = Some ''00012345''
   \<and> line_item_code ''123 2 5.00 1.00'' = None
   \<and> process_line [] ''123 2 5.00 1.00'' = Inr NotItem
   \<and> line_item_code ''123456789 2 5.00 1.00'' = None"
  using item_code_canonical_form [of "''12345''" "CHR '' ''" "''2 5.00 1.00''" "''123 2 5.00 1.00''" "[]"]
        item_code_canonical_form [of "''00012345''" "CHR '' ''" "''  10   0.00   2.50   25.00''" "''123456789 2 5.00 1.00''" "[]"]
  by (simp add: is_digit_def is_space_def numeral_3_eq_3)

section \<open>Numeric tokens\<close>

lemma rx_match_Eos: "rx_match [Eos] s \<noteq> None \<longleftrightarrow> at_end s"
  by simp

lemma at_end_not_digit: "at_end t \<Longrightarrow> t = [] \<or> \<not> is_digit (hd t)"
  by (auto simp: at_end_def is_digit_def)

lemma rx_match_Rep_ok:
  "rx_match (Rep c lo hi cap # ps) s \<noteq> None \<longleftrightarrow>
     (\<exists>n. lo \<le> n
          \<and> n \<le> (case hi of None \<Rightarrow> length (takeWhile (in_class c) s)
                          | Some h \<Rightarrow> min h (length (takeWhile (in_class c) s)))
          \<and> rx_match ps (drop n s) \<noteq> None)"
proof -
  define k where "k = (\<lambda>n. case rx_match ps (drop n s) of
               None \<Rightarrow> None
             | Some (g, rest) \<Rightarrow> Some ((if cap then take n s else []) @ g, rest))"
  define top where "top = (case hi of None \<Rightarrow> length (takeWhile (in_class c) s)
                          | Some h \<Rightarrow> min h (length (takeWhile (in_class c) s)))"
  have k: "k n = None \<longleftrightarrow> rx_match ps (drop n s) = None" for n
    by (cases "rx_match ps (drop n s)") (auto simp: k_def)
  have "rx_match (Rep c lo hi cap # ps) s = first_down k lo top"
    unfolding k_def top_def by (rule rx_match_Rep)
  then have "rx_match (Rep c lo hi cap # ps) s = None \<longleftrightarrow>
       (\<forall>m. lo \<le> m \<and> m \<le> top \<longrightarrow> rx_match ps (drop m s) = None)"
    by (simp add: first_down_None_iff k)
  then show ?thesis unfolding top_def by simp
qed

lemma drop_run_eq:
  "drop (length (takeWhile P s)) s = dropWhile P s"
  by (rule dropWhile_eq_drop [symmetric])

lemma dropWhile_drop_run:
  assumes "n \<le> length (takeWhile P s)"
  shows "dropWhile P (drop n s) = dropWhile P s"
  using assms
proof (induction s arbitrary: n)
  case Nil
  then show ?case by simp
next
  case (Cons a s)
  show ?case
  proof (cases n)
    case 0
    then show ?thesis by simp
  next
    case (Suc m)
    then have pa: "P a" using Cons.prems by (cases "P a") auto
    then have "m \<le> length (takeWhile P s)" using Cons.prems Suc by simp
    then have "dropWhile P (drop m s) = dropWhile P s" by (rule Cons.IH)
    then show ?thesis using Suc pa by simp
  qed
qed

lemma run_split:
  assumes "\<And>t. Q t \<Longrightarrow> t = [] \<or> \<not> P (hd t)"
  shows "(\<exists>n. lo \<le> n \<and> n \<le> length (takeWhile P s) \<and> Q (drop n s))
           \<longleftrightarrow> lo \<le> length (takeWhile P s) \<and> Q (dropWhile P s)"
proof
  assume "\<exists>n. lo \<le> n \<and> n \<le> length (takeWhile P s) \<and> Q (drop n s)"
  then obtain n where n: "lo \<le> n" "n \<le> length (takeWhile P s)" "Q (drop n s)" by auto
  have "\<not> n < length (takeWhile P s)"
  proof
    assume "n < length (takeWhile P s)"
    then have "drop n s \<noteq> [] \<and> P (hd (drop n s))" by (rule drop_in_run)
    then show False using assms [OF n(3)] by simp
  qed
  then have e: "n = length (takeWhile P s)" using n(2) by simp
  then have "Q (dropWhile P s)" using n(3) by (simp add: drop_run_eq)
  then show "lo \<le> length (takeWhile P s) \<and> Q (dropWhile P s)" using n(1) e by simp
next
  assume a: "lo \<le> length (takeWhile P s) \<and> Q (dropWhile P s)"
  then have "lo \<le> length (takeWhile P s) \<and> length (takeWhile P s) \<le> length (takeWhile P s)
      \<and> Q (drop (length (takeWhile P s)) s)"
    by (simp add: drop_run_eq)
  then show "\<exists>n. lo \<le> n \<and> n \<le> length (takeWhile P s) \<and> Q (drop n s)" by (rule exI)
qed

lemma rx_match_digits_Eos:
  "rx_match [Rep Digit lo None cap, Eos] s \<noteq> None \<longleftrightarrow>
     lo \<le> length (takeWhile is_digit s) \<and> at_end (dropWhile is_digit s)"
proof -
  have "rx_match [Rep Digit lo None cap, Eos] s \<noteq> None \<longleftrightarrow>
     (\<exists>n. lo \<le> n \<and> n \<le> length (takeWhile is_digit s) \<and> at_end (drop n s))"
    by (subst rx_match_Rep_ok, subst rx_match_Eos) (simp add: in_class_Digit)
  also have "\<dots> \<longleftrightarrow> lo \<le> length (takeWhile is_digit s) \<and> at_end (dropWhile is_digit s)"
    by (rule run_split) (rule at_end_not_digit)
  finally show ?thesis .
qed

lemma rx_match_integer_token:
  "rx_match integer_token_rx s \<noteq> None \<longleftrightarrow>
     takeWhile is_digit s \<noteq> [] \<and> at_end (dropWhile is_digit s)"
proof -
  have "1 \<le> length (takeWhile is_digit s) \<longleftrightarrow> takeWhile is_digit s \<noteq> []"
    by (cases "takeWhile is_digit s") simp_all
  then show ?thesis unfolding integer_token_rx_def rx_match_digits_Eos by simp
qed

lemma rx_match_point_digits_Eos:
  "rx_match [Rep (Lit CHR ''.'') 0 (Some 1) False, Rep Digit 0 None False, Eos] t \<noteq> None \<longleftrightarrow>
     at_end (dropWhile is_digit t)
     \<or> (\<exists>u. t = CHR ''.'' # u \<and> at_end (dropWhile is_digit u))"
proof -
  define run where "run = length (takeWhile (in_class (Lit CHR ''.'')) t)"
  have m: "rx_match [Rep (Lit CHR ''.'') 0 (Some 1) False, Rep Digit 0 None False, Eos] t \<noteq> None \<longleftrightarrow>
     (\<exists>n. n \<le> min 1 run \<and> at_end (dropWhile is_digit (drop n t)))"
    unfolding run_def by (subst rx_match_Rep_ok, subst rx_match_digits_Eos) simp
  show ?thesis
  proof (cases "\<exists>u. t = CHR ''.'' # u")
    case True
    then obtain u where u: "t = CHR ''.'' # u" by auto
    then have r: "min 1 run = 1" by (simp add: run_def)
    have "(\<exists>n. n \<le> (1::nat) \<and> at_end (dropWhile is_digit (drop n t)))
            \<longleftrightarrow> at_end (dropWhile is_digit t) \<or> at_end (dropWhile is_digit u)"
    proof
      assume "\<exists>n. n \<le> (1::nat) \<and> at_end (dropWhile is_digit (drop n t))"
      then obtain n where n: "n \<le> 1" "at_end (dropWhile is_digit (drop n t))" by auto
      then have "n = 0 \<or> n = 1" by auto
      then show "at_end (dropWhile is_digit t) \<or> at_end (dropWhile is_digit u)"
        using n(2) u by auto
    next
      assume "at_end (dropWhile is_digit t) \<or> at_end (dropWhile is_digit u)"
      then show "\<exists>n. n \<le> (1::nat) \<and> at_end (dropWhile is_digit (drop n t))"
      proof
        assume "at_end (dropWhile is_digit t)"
        then have "0 \<le> (1::nat) \<and> at_end (dropWhile is_digit (drop 0 t))" by simp
        then show ?thesis by (rule exI)
      next
        assume "at_end (dropWhile is_digit u)"
        then have "1 \<le> (1::nat) \<and> at_end (dropWhile is_digit (drop 1 t))" using u by simp
        then show ?thesis by (rule exI)
      qed
    qed
    then show ?thesis using m r u by simp
  next
    case False
    then have "run = 0" by (cases t) (auto simp: run_def)
    then show ?thesis using m False by simp
  qed
qed

lemma rx_match_decimal_token:
  "rx_match decimal_token_rx s \<noteq> None \<longleftrightarrow>
     takeWhile is_digit s \<noteq> []
     \<and> (at_end (dropWhile is_digit s)
        \<or> (\<exists>u. dropWhile is_digit s = CHR ''.'' # u \<and> at_end (dropWhile is_digit u)))"
proof -
  define X where "X = (\<lambda>t. at_end (dropWhile is_digit t)
     \<or> (\<exists>u. t = CHR ''.'' # u \<and> at_end (dropWhile is_digit u)))"
  define run where "run = length (takeWhile is_digit s)"
  define r where "r = dropWhile is_digit s"
  have rr: "dropWhile is_digit r = r"
    unfolding r_def by simp
  have m: "rx_match decimal_token_rx s \<noteq> None \<longleftrightarrow> (\<exists>n. 1 \<le> n \<and> n \<le> run \<and> X (drop n s))"
    unfolding decimal_token_rx_def X_def run_def
    by (subst rx_match_Rep_ok, subst rx_match_point_digits_Eos) (simp add: in_class_Digit)
  have inside: "X (drop n s) \<longleftrightarrow> at_end r" if "n < run" for n
  proof -
    have "drop n s \<noteq> [] \<and> is_digit (hd (drop n s))"
      using that unfolding run_def by (rule drop_in_run)
    then have "\<not> (\<exists>u. drop n s = CHR ''.'' # u)" by (auto simp: is_digit_def)
    moreover have "dropWhile is_digit (drop n s) = r"
      unfolding r_def using that by (intro dropWhile_drop_run) (simp add: run_def)
    ultimately show ?thesis by (simp add: X_def)
  qed
  have last: "X (drop run s) \<longleftrightarrow> at_end r \<or> (\<exists>u. r = CHR ''.'' # u \<and> at_end (dropWhile is_digit u))"
    unfolding run_def X_def drop_run_eq r_def [symmetric] rr ..
  have "(\<exists>n. 1 \<le> n \<and> n \<le> run \<and> X (drop n s)) \<longleftrightarrow>
          1 \<le> run \<and> (at_end r \<or> (\<exists>u. r = CHR ''.'' # u \<and> at_end (dropWhile is_digit u)))"
  proof
    assume "\<exists>n. 1 \<le> n \<and> n \<le> run \<and> X (drop n s)"
    then obtain n where n: "1 \<le> n" "n \<le> run" "X (drop n s)" by auto
    show "1 \<le> run \<and> (at_end r \<or> (\<exists>u. r = CHR ''.'' # u \<and> at_end (dropWhile is_digit u)))"
    proof (cases "n < run")
      case True
      then have "at_end r" using n(3) inside by simp
      then show ?thesis using n by simp
    next
      case False
      then have "n = run" using n(2) by simp
      then show ?thesis using n last by simp
    qed
  next
    assume a: "1 \<le> run \<and> (at_end r \<or> (\<exists>u. r = CHR ''.'' # u \<and> at_end (dropWhile is_digit u)))"
    then have "1 \<le> run \<and> run \<le> run \<and> X (drop run s)" using last by simp
    then show "\<exists>n. 1 \<le> n \<and> n \<le> run \<and> X (drop n s)" by (rule exI)
  qed
  moreover have "1 \<le> run \<longleftrightarrow> takeWhile is_digit s \<noteq> []"
    unfolding run_def by (cases "takeWhile is_digit s") simp_all
  ultimately show ?thesis using m unfolding r_def by simp
qed

lemma is_numeric_token_eq:
  "is_numeric_token s \<longleftrightarrow>
     takeWhile is_digit s \<noteq> []
     \<and> (at_end (dropWhile is_digit s)
        \<or> (\<exists>u. dropWhile is_digit s = CHR ''.'' # u \<and> at_end (dropWhile is_digit u)))"
  unfolding is_numeric_token_def rx_match_decimal_token rx_match_integer_token by auto

section \<open>The lookup\<close>

lemma db_select_astype_str:
  "db_select (astype_str table) code =
     map (\<lambda>r. r\<lparr>col_item_code := StrCell (py_str (col_item_code r))\<rparr>)
       (filter (\<lambda>r. py_str (col_item_code r) = code) table)"
  by (simp add: db_select_def astype_str_def filter_map comp_def)

lemma lookup_gl_astype_str:
  "lookup_gl (astype_str table) code =
     (case filter (\<lambda>r. py_str (col_item_code r) = code) table of
        [] \<Rightarrow> (NOT_FOUND, NOT_FOUND)
      | r # _ \<Rightarrow> (col_gl_code r, col_gl_description r))"
  by (simp add: lookup_gl_def db_select_astype_str split: list.split)

lemma filter_first:
  assumes "\<forall>p \<in> set pre. \<not> P p" and "P r"
  shows "filter P (pre @ r # post) = r # filter P post"
  using assms by (induction pre) auto

lemma lookup_gl_first:
  assumes "\<forall>p \<in> set pre. py_str (col_item_code p) \<noteq> code"
      and "py_str (col_item_code r) = code"
  shows "lookup_gl (astype_str (pre @ r # post)) code = (col_gl_code r, col_gl_description r)"
proof -
  have "filter (\<lambda>r. py_str (col_item_code r) = code) (pre @ r # post)
          = r # filter (\<lambda>r. py_str (col_item_code r) = code) post"
    using assms by (intro filter_first) auto
  then show ?thesis by (simp add: lookup_gl_astype_str)
qed

lemma lookup_gl_hit:
  assumes "lookup_gl (astype_str table) code \<noteq> (NOT_FOUND, NOT_FOUND)"
  shows "\<exists>r \<in> set table. py_str (col_item_code r) = code
            \<and> lookup_gl (astype_str table) code = (col_gl_code r, col_gl_description r)"
proof (cases "filter (\<lambda>r. py_str (col_item_code r) = code) table")
  case Nil
  then show ?thesis using assms by (simp add: lookup_gl_astype_str)
next
  case (Cons r rs)
  then have "r \<in> set (filter (\<lambda>r. py_str (col_item_code r) = code) table)" by simp
  then have "r \<in> set table \<and> py_str (col_item_code r) = code" by simp
  then show ?thesis using Cons by (auto simp: lookup_gl_astype_str)
qed

text \<open>
  Claim C1, as stated, fails. The table is only converted to strings: the row whose item
  code is the number 12345 is kept as \<open>12345\<close>, its 8-digit form would be \<open>00012345\<close>,
  and the line item \<open>12345\<close>, padded to \<open>00012345\<close>, does not find it.
\<close>

theorem lookup_unpadded_row_counterexample:
  "zfill 8 (py_str (IntCell 12345)) = ''00012345''
   \<and> line_item_code ''12345 1 2.00 3.00'' = Some ''00012345''
   \<and> lookup_gl
        (astype_str [\<lparr>col_item_code = IntCell 12345, col_gl_code = IntCell 5000,
                       col_gl_description = StrCell ''Food''\<rparr>])
        ''00012345'' = (NOT_FOUND, NOT_FOUND)"
proof -
  have d: "dec_digits 12345 = ''12345''" by (simp add: dec_digits.simps digit_char_def)
  have "zfill 8 (py_str (IntCell 12345)) = ''00012345''"
    by (simp add: d zfill_def numeral_3_eq_3)
  moreover have "line_item_code ''12345 1 2.00 3.00'' = Some ''00012345''" by code_simp
  moreover have "lookup_gl
        (astype_str [\<lparr>col_item_code = IntCell 12345, col_gl_code = IntCell 5000,
                       col_gl_description = StrCell ''Food''\<rparr>])
        ''00012345'' = (NOT_FOUND, NOT_FOUND)"
    by (simp add: lookup_gl_astype_str d)
  ultimately show ?thesis by (intro conjI)
qed

text \<open>
  Claim C1, amended. The rows are compared by their item code converted to a string,
  without padding. A lookup that finds something returns the GL code and the GL
  description of a row whose item code, as a string, is the code looked up, character
  for character; when no row has that string the result is \<open>NOT_FOUND\<close> twice; and when
  the rows with that string all carry the same GL values, the lookup returns them.
\<close>

theorem lookup_exact_string_match:
  "(lookup_gl (astype_str table) code \<noteq> (NOT_FOUND, NOT_FOUND) \<longrightarrow>
      (\<exists>r \<in> set table. py_str (col_item_code r) = code
          \<and> lookup_gl (astype_str table) code = (col_gl_code r, col_gl_description r)))
   \<and> ((\<forall>r \<in> set table. py_str (col_item_code r) \<noteq> code) \<longrightarrow>
        lookup_gl (astype_str table) code = (NOT_FOUND, NOT_FOUND))
   \<and> (r \<in> set table \<and> py_str (col_item_code r) = code
        \<and> (\<forall>r' \<in> set table. py_str (col_item_code r') = code \<longrightarrow>
              col_gl_code r' = col_gl_code r \<and> col_gl_description r' = col_gl_description r)
        \<longrightarrow> lookup_gl (astype_str table) code = (col_gl_code r, col_gl_description r))"
proof (intro conjI impI)
  assume "lookup_gl (astype_str table) code \<noteq> (NOT_FOUND, NOT_FOUND)"
  then show "\<exists>r \<in> set table. py_str (col_item_code r) = code
          \<and> lookup_gl (astype_str table) code = (col_gl_code r, col_gl_description r)"
    by (rule lookup_gl_hit)
next
  assume "\<forall>r \<in> set table. py_str (col_item_code r) \<noteq> code"
  then have "filter (\<lambda>r. py_str (col_item_code r) = code) table = []"
    by (simp add: filter_empty_conv)
  then show "lookup_gl (astype_str table) code = (NOT_FOUND, NOT_FOUND)"
    by (simp add: lookup_gl_astype_str)
next
  assume a: "r \<in> set table \<and> py_str (col_item_code r) = code
        \<and> (\<forall>r' \<in> set table. py_str (col_item_code r') = code \<longrightarrow>
              col_gl_code r' = col_gl_code r \<and> col_gl_description r' = col_gl_description r)"
  then have rin: "r \<in> set table" and rc: "py_str (col_item_code r) = code"
    and same: "\<forall>r' \<in> set table. py_str (col_item_code r') = code \<longrightarrow>
              col_gl_code r' = col_gl_code r \<and> col_gl_description r' = col_gl_description r"
    by (rule conjunct1, rule conjunct1 [OF conjunct2], rule conjunct2 [OF conjunct2])
  show "lookup_gl (astype_str table) code = (col_gl_code r, col_gl_description r)"
  proof (cases "filter (\<lambda>r. py_str (col_item_code r) = code) table")
    case Nil
    have "r \<in> set (filter (\<lambda>r. py_str (col_item_code r) = code) table)"
      using rin rc by (simp only: set_filter mem_Collect_eq simp_thms)
    then show ?thesis unfolding Nil by (simp only: list.set empty_iff)
  next
    case (Cons x xs)
    have "x \<in> set (filter (\<lambda>r. py_str (col_item_code r) = code) table)"
      unfolding Cons by (rule list.set_intros(1))
    then have xin: "x \<in> set table" and xc: "py_str (col_item_code x) = code"
      by (simp_all only: set_filter mem_Collect_eq)
    have "col_gl_code x = col_gl_code r \<and> col_gl_description x = col_gl_description r"
      by (rule mp [OF bspec [OF same xin] xc])
    then show ?thesis unfolding lookup_gl_astype_str Cons by (simp only: list.case)
  qed
qed

theorem lookup_exact_string_match_witness:
  "lookup_gl
     (astype_str [\<lparr>col_item_code = IntCell 12345678, col_gl_code = IntCell 5000,
                    col_gl_description = StrCell ''Food''\<rparr>,
                  \<lparr>col_item_code = StrCell ''00012345'', col_gl_code = IntCell 6000,
                    col_gl_description = StrCell ''Paper''\<rparr>])
     ''12345678'' = (IntCell 5000, StrCell ''Food'')
   \<and> lookup_gl
     (astype_str [\<lparr>col_item_code = IntCell 12345678, col_gl_code = IntCell 5000,
                    col_gl_description = StrCell ''Food''\<rparr>,
                  \<lparr>col_item_code = StrCell ''00012345'', col_gl_code = IntCell 6000,
                    col_gl_description = StrCell ''Paper''\<rparr>])
     ''00000007'' = (NOT_FOUND, NOT_FOUND)"
proof -
  define r1 where "r1 = \<lparr>col_item_code = IntCell 12345678, col_gl_code = IntCell 5000,
                    col_gl_description = StrCell ''Food''\<rparr>"
  define r2 where "r2 = \<lparr>col_item_code = StrCell ''00012345'', col_gl_code = IntCell 6000,
                    col_gl_description = StrCell ''Paper''\<rparr>"
  have d: "dec_digits 12345678 = ''12345678''" by (simp add: dec_digits.simps digit_char_def)
  have s1: "py_str (col_item_code r1) = ''12345678''" by (simp add: r1_def d)
  have s2: "py_str (col_item_code r2) = ''00012345''" by (simp add: r2_def)
  have h3: "r1 \<in> set [r1, r2] \<and> py_str (col_item_code r1) = ''12345678''
        \<and> (\<forall>r' \<in> set [r1, r2]. py_str (col_item_code r') = ''12345678'' \<longrightarrow>
              col_gl_code r' = col_gl_code r1 \<and> col_gl_description r' = col_gl_description r1)"
    by (simp add: s1 s2)
  have h2: "\<forall>r \<in> set [r1, r2]. py_str (col_item_code r) \<noteq> ''00000007''"
    by (simp add: s1 s2)
  have "lookup_gl (astype_str [r1, r2]) ''12345678'' = (col_gl_code r1, col_gl_description r1)"
    by (rule lookup_exact_string_match
              [of "[r1, r2]" "''12345678''" r1, THEN conjunct2, THEN conjunct2, THEN mp, OF h3])
  moreover have "lookup_gl (astype_str [r1, r2]) ''00000007'' = (NOT_FOUND, NOT_FOUND)"
    by (rule lookup_exact_string_match
              [of "[r1, r2]" "''00000007''" r1, THEN conjunct2, THEN conjunct1, THEN mp, OF h2])
  ultimately show ?thesis unfolding r1_def r2_def by simp
qed

text \<open>
  Claim C2, as stated, fails. Of two rows with the same item code the lookup returns the
  values of the first, not of the last.
\<close>

theorem duplicate_code_last_wins_counterexample:
  "lookup_gl
     (astype_str [\<lparr>col_item_code = StrCell ''00012345'', col_gl_code = IntCell 6000,
                    col_gl_description = StrCell ''Paper''\<rparr>,
                  \<lparr>col_item_code = StrCell ''00012345'', col_gl_code = IntCell 7000,
                    col_gl_description = StrCell ''Other''\<rparr>])
     ''00012345'' = (IntCell 6000, StrCell ''Paper'')
   \<and> (IntCell 6000, StrCell ''Paper'') \<noteq> (IntCell 7000, StrCell ''Other'')"
  by (simp add: lookup_gl_astype_str)

text \<open>
  Claim C2, amended. The lookup returns the GL code and the GL description of the first
  row of the table whose item code, as a string, is the code looked up, whatever rows
  follow it: with duplicates the first loaded row wins, and a lookup gives one entry.
\<close>

theorem duplicate_code_first_wins:
  assumes "table = pre @ r # post"
      and "\<forall>p \<in> set pre. py_str (col_item_code p) \<noteq> code"
      and "py_str (col_item_code r) = code"
  shows "lookup_gl (astype_str table) code = (col_gl_code r, col_gl_description r)"
  using assms by (simp add: lookup_gl_first)

theorem duplicate_code_first_wins_witness:
  "lookup_gl
     (astype_str [\<lparr>col_item_code = StrCell ''00012345'', col_gl_code = IntCell 6000,
                    col_gl_description = StrCell ''Paper''\<rparr>,
                  \<lparr>col_item_code = StrCell ''00012345'', col_gl_code = IntCell 7000,
                    col_gl_description = StrCell ''Other''\<rparr>])
     ''00012345'' = (IntCell 6000, StrCell ''Paper'')"
  using duplicate_code_first_wins
          [of "[\<lparr>col_item_code = StrCell ''00012345'', col_gl_code = IntCell 6000,
                    col_gl_description = StrCell ''Paper''\<rparr>,
                  \<lparr>col_item_code = StrCell ''00012345'', col_gl_code = IntCell 7000,
                    col_gl_description = StrCell ''Other''\<rparr>]"
              "[]"
              "\<lparr>col_item_code = StrCell ''00012345'', col_gl_code = IntCell 6000,
                    col_gl_description = StrCell ''Paper''\<rparr>"
              "[\<lparr>col_item_code = StrCell ''00012345'', col_gl_code = IntCell 7000,
                    col_gl_description = StrCell ''Other''\<rparr>]"
              "''00012345''"]
  by simp

section \<open>The parts of a line\<close>

lemma py_split_token:
  "t \<in> set (py_split s) \<Longrightarrow> t \<noteq> [] \<and> (\<forall>c \<in> set t. \<not> is_space c)"
proof (induction s rule: py_split.induct)
  case (1 s)
  show ?case
  proof (cases "dropWhile is_space s")
    case Nil
    have "py_split s = (case dropWhile is_space s of
        [] \<Rightarrow> []
      | c # cs \<Rightarrow> takeWhile (\<lambda>x. \<not> is_space x) (c # cs)
                  # py_split (dropWhile (\<lambda>x. \<not> is_space x) (c # cs)))"
      by (rule py_split.simps)
    also have "\<dots> = []" unfolding Nil by (rule list.case(1))
    finally show ?thesis using "1.prems" by simp
  next
    case (Cons c cs)
    have "py_split s = (case dropWhile is_space s of
        [] \<Rightarrow> []
      | c # cs \<Rightarrow> takeWhile (\<lambda>x. \<not> is_space x) (c # cs)
                  # py_split (dropWhile (\<lambda>x. \<not> is_space x) (c # cs)))"
      by (rule py_split.simps)
    also have "\<dots> = takeWhile (\<lambda>x. \<not> is_space x) (c # cs)
                  # py_split (dropWhile (\<lambda>x. \<not> is_space x) (c # cs))"
      unfolding Cons by (rule list.case(2))
    finally have ps: "py_split s = takeWhile (\<lambda>x. \<not> is_space x) (c # cs)
                  # py_split (dropWhile (\<lambda>x. \<not> is_space x) (c # cs))" .
    have "hd (dropWhile is_space s) = c" unfolding Cons by simp
    moreover have "dropWhile is_space s \<noteq> []" unfolding Cons by simp
    ultimately have nc: "\<not> is_space c" using hd_dropWhile [of is_space s] by simp
    from "1.prems" have "t = takeWhile (\<lambda>x. \<not> is_space x) (c # cs)
          \<or> t \<in> set (py_split (dropWhile (\<lambda>x. \<not> is_space x) (c # cs)))"
      unfolding ps by simp
    then show ?thesis
    proof
      assume t: "t = takeWhile (\<lambda>x. \<not> is_space x) (c # cs)"
      then have "t \<noteq> []" using nc by simp
      moreover have "\<forall>x \<in> set t. \<not> is_space x" unfolding t by (auto dest: set_takeWhileD)
      ultimately show ?thesis by simp
    next
      assume "t \<in> set (py_split (dropWhile (\<lambda>x. \<not> is_space x) (c # cs)))"
      then show ?thesis by (rule "1.IH" [OF Cons])
    qed
  qed
qed

lemma newline_is_space: "is_space (CHR 0x0A)"
  by (simp add: is_space_def)

lemma at_end_no_newline:
  assumes "CHR 0x0A \<notin> set s"
  shows "at_end s \<longleftrightarrow> s = []"
  using assms by (auto simp: at_end_def)

lemma dropWhile_Nil_all: "dropWhile P u = [] \<longleftrightarrow> list_all P u"
  by (simp add: list_all_iff)

lemma numeric_shape:
  assumes "CHR 0x0A \<notin> set t"
  shows "is_numeric_token t \<longleftrightarrow>
           takeWhile is_digit t \<noteq> []
           \<and> (dropWhile is_digit t = []
              \<or> (\<exists>u. dropWhile is_digit t = CHR ''.'' # u \<and> list_all is_digit u))"
proof -
  have r: "CHR 0x0A \<notin> set (dropWhile is_digit t)"
    using assms by (auto dest: set_dropWhileD)
  have u: "at_end (dropWhile is_digit u) \<longleftrightarrow> list_all is_digit u"
    if "dropWhile is_digit t = CHR ''.'' # u" for u
  proof -
    have "set u \<subseteq> set (dropWhile is_digit t)" using that by auto
    then have "CHR 0x0A \<notin> set u" using r by auto
    then have "CHR 0x0A \<notin> set (dropWhile is_digit u)" by (auto dest: set_dropWhileD)
    then show ?thesis by (simp add: at_end_no_newline list_all_iff)
  qed
  have "(\<exists>u. dropWhile is_digit t = CHR ''.'' # u \<and> at_end (dropWhile is_digit u))
        \<longleftrightarrow> (\<exists>u. dropWhile is_digit t = CHR ''.'' # u \<and> list_all is_digit u)"
    using u by auto
  then show ?thesis
    unfolding is_numeric_token_eq at_end_no_newline [OF r] by simp
qed

lemma numeric_shape_words:
  assumes "CHR 0x0A \<notin> set t"
  shows "is_numeric_token t \<longleftrightarrow>
           (t \<noteq> [] \<and> list_all is_digit t)
           \<or> (\<exists>ds fs. t = ds @ CHR ''.'' # fs \<and> ds \<noteq> []
                 \<and> list_all is_digit ds \<and> list_all is_digit fs)"
proof
  assume "is_numeric_token t"
  then have d: "takeWhile is_digit t \<noteq> []"
    and r: "dropWhile is_digit t = []
              \<or> (\<exists>u. dropWhile is_digit t = CHR ''.'' # u \<and> list_all is_digit u)"
    using numeric_shape [OF assms] by simp_all
  have all: "list_all is_digit (takeWhile is_digit t)"
    by (auto simp: list_all_iff dest: set_takeWhileD)
  from r show "(t \<noteq> [] \<and> list_all is_digit t)
           \<or> (\<exists>ds fs. t = ds @ CHR ''.'' # fs \<and> ds \<noteq> []
                 \<and> list_all is_digit ds \<and> list_all is_digit fs)"
  proof
    assume "dropWhile is_digit t = []"
    then have "list_all is_digit t" by (simp add: list_all_iff)
    moreover have "t \<noteq> []" using d by auto
    ultimately show ?thesis by simp
  next
    assume "\<exists>u. dropWhile is_digit t = CHR ''.'' # u \<and> list_all is_digit u"
    then obtain u where u: "dropWhile is_digit t = CHR ''.'' # u" "list_all is_digit u" by auto
    have "t = takeWhile is_digit t @ dropWhile is_digit t" by simp
    then have "t = takeWhile is_digit t @ CHR ''.'' # u" using u(1) by simp
    then have "t = takeWhile is_digit t @ CHR ''.'' # u \<and> takeWhile is_digit t \<noteq> []
                 \<and> list_all is_digit (takeWhile is_digit t) \<and> list_all is_digit u"
      using d all u(2) by simp
    then show ?thesis by blast
  qed
next
  assume "(t \<noteq> [] \<and> list_all is_digit t)
           \<or> (\<exists>ds fs. t = ds @ CHR ''.'' # fs \<and> ds \<noteq> []
                 \<and> list_all is_digit ds \<and> list_all is_digit fs)"
  then show "is_numeric_token t"
  proof
    assume a: "t \<noteq> [] \<and> list_all is_digit t"
    then have tw: "takeWhile is_digit t = t" and dw: "dropWhile is_digit t = []"
      by (simp_all add: list_all_iff)
    show ?thesis unfolding numeric_shape [OF assms] tw dw using a by simp
  next
    assume "\<exists>ds fs. t = ds @ CHR ''.'' # fs \<and> ds \<noteq> []
                 \<and> list_all is_digit ds \<and> list_all is_digit fs"
    then obtain ds fs where t: "t = ds @ CHR ''.'' # fs" and ds: "ds \<noteq> []" "list_all is_digit ds"
      and fs: "list_all is_digit fs" by auto
    have nd: "\<not> is_digit (CHR ''.'')" by (simp add: is_digit_def)
    have "takeWhile is_digit t = ds" "dropWhile is_digit t = CHR ''.'' # fs"
      unfolding t using takeWhile_run [of is_digit ds "CHR ''.'' # fs"] ds(2) nd by simp_all
    then have tw: "takeWhile is_digit t = ds" and dw: "dropWhile is_digit t = CHR ''.'' # fs"
      by simp_all
    show ?thesis unfolding numeric_shape [OF assms] tw dw using ds fs by simp
  qed
qed

lemma numeric_chars:
  assumes "is_numeric_token t" and "c \<in> set t"
  shows "is_digit c \<or> c = CHR ''.'' \<or> c = CHR 0x0A"
proof -
  define d where "d = takeWhile is_digit t"
  define r where "r = dropWhile is_digit t"
  have t: "set t = set d \<union> set r"
    unfolding d_def r_def by (metis set_append takeWhile_dropWhile_id)
  have dd: "\<forall>x \<in> set d. is_digit x" unfolding d_def by (auto dest: set_takeWhileD)
  have rr: "at_end r \<or> (\<exists>u. r = CHR ''.'' # u \<and> at_end (dropWhile is_digit u))"
    using assms(1) unfolding is_numeric_token_eq r_def by simp
  have "\<forall>x \<in> set r. is_digit x \<or> x = CHR ''.'' \<or> x = CHR 0x0A"
    using rr
  proof
    assume "at_end r"
    then show ?thesis by (auto simp: at_end_def)
  next
    assume "\<exists>u. r = CHR ''.'' # u \<and> at_end (dropWhile is_digit u)"
    then obtain u where u: "r = CHR ''.'' # u" "at_end (dropWhile is_digit u)" by auto
    have su: "set u = set (takeWhile is_digit u) \<union> set (dropWhile is_digit u)"
      by (metis set_append takeWhile_dropWhile_id)
    have "\<forall>x \<in> set (takeWhile is_digit u). is_digit x" by (auto dest: set_takeWhileD)
    moreover have "\<forall>x \<in> set (dropWhile is_digit u). x = CHR 0x0A"
    proof -
      from u(2) have "dropWhile is_digit u = [] \<or> dropWhile is_digit u = [CHR 0x0A]"
        by (simp only: at_end_def)
      then show ?thesis
      proof
        assume e: "dropWhile is_digit u = []"
        show ?thesis unfolding e by simp
      next
        assume e: "dropWhile is_digit u = [CHR 0x0A]"
        show ?thesis unfolding e by simp
      qed
    qed
    ultimately have "\<forall>x \<in> set u. is_digit x \<or> x = CHR 0x0A" using su by auto
    then show ?thesis using u(1) by auto
  qed
  then show ?thesis using dd t assms(2) by auto
qed

text \<open>
  Claim C7. A part of a line, as \<^verbatim>\<open>line.split()\<close> gives it, is taken as a number exactly
  when it is one or more digits, or one or more digits, a point and any number of digits.
  A part with a sign, a comma or an \<open>e\<close> in it is not taken as a number, and is not among
  the numbers of the line.
\<close>

theorem numeric_token_classification:
  "t \<in> set (py_split line) \<longrightarrow>
     (is_numeric_token t \<longleftrightarrow>
        (t \<noteq> [] \<and> list_all is_digit t)
        \<or> (\<exists>ds fs. t = ds @ CHR ''.'' # fs \<and> ds \<noteq> []
              \<and> list_all is_digit ds \<and> list_all is_digit fs))
     \<and> ((\<exists>c \<in> set t. c \<in> set ''+-,eE'') \<longrightarrow>
           \<not> is_numeric_token t \<and> t \<notin> set (numeric_tokens line))"
proof (intro impI conjI)
  assume a: "t \<in> set (py_split line)"
  then have "\<forall>c \<in> set t. \<not> is_space c" using py_split_token by blast
  then have nl: "CHR 0x0A \<notin> set t" using newline_is_space by blast
  show "is_numeric_token t \<longleftrightarrow>
        (t \<noteq> [] \<and> list_all is_digit t)
        \<or> (\<exists>ds fs. t = ds @ CHR ''.'' # fs \<and> ds \<noteq> []
              \<and> list_all is_digit ds \<and> list_all is_digit fs)"
    using nl by (rule numeric_shape_words)
  assume "\<exists>c \<in> set t. c \<in> set ''+-,eE''"
  then obtain c where c: "c \<in> set t" "c \<in> set ''+-,eE''" by auto
  have "\<not> (is_digit c \<or> c = CHR ''.'' \<or> c = CHR 0x0A)"
    using c(2) by (auto simp: is_digit_def)
  then show n: "\<not> is_numeric_token t" using numeric_chars [OF _ c(1)] by blast
  then show "t \<notin> set (numeric_tokens line)" by (simp add: numeric_tokens_def)
qed

theorem numeric_token_classification_witness:
  "is_numeric_token ''8.'' \<and> is_numeric_token ''12345'' \<and> \<not> is_numeric_token ''-5.00''
   \<and> \<not> is_numeric_token ''1,000'' \<and> \<not> is_numeric_token ''2e5''
   \<and> ''2e5'' \<notin> set (numeric_tokens ''12345 2e5 -5.00 1,000 7 8. 9'')"
proof -
  define line where "line = ''12345 2e5 -5.00 1,000 7 8. 9''"
  have sp: "py_split line = [''12345'', ''2e5'', ''-5.00'', ''1,000'', ''7'', ''8.'', ''9'']"
    unfolding line_def by code_simp
  have m1: "''8.'' \<in> set (py_split line)" and m2: "''12345'' \<in> set (py_split line)"
    and m3: "''-5.00'' \<in> set (py_split line)" and m4: "''1,000'' \<in> set (py_split line)"
    and m5: "''2e5'' \<in> set (py_split line)"
    unfolding sp by simp_all
  have h1: "(''8.'' \<noteq> [] \<and> list_all is_digit ''8.'')
        \<or> (\<exists>ds fs. ''8.'' = ds @ CHR ''.'' # fs \<and> ds \<noteq> []
              \<and> list_all is_digit ds \<and> list_all is_digit fs)"
    by (rule disjI2, rule exI [of _ "''8''"], rule exI [of _ "[]"]) (simp add: is_digit_def)
  have h2: "(''12345'' \<noteq> [] \<and> list_all is_digit ''12345'')
        \<or> (\<exists>ds fs. ''12345'' = ds @ CHR ''.'' # fs \<and> ds \<noteq> []
              \<and> list_all is_digit ds \<and> list_all is_digit fs)"
    by (rule disjI1) (simp add: is_digit_def)
  have h3: "\<exists>c \<in> set ''-5.00''. c \<in> set ''+-,eE''" by simp
  have h4: "\<exists>c \<in> set ''1,000''. c \<in> set ''+-,eE''" by simp
  have h5: "\<exists>c \<in> set ''2e5''. c \<in> set ''+-,eE''" by simp
  have "is_numeric_token ''8.''"
    by (rule numeric_token_classification [THEN mp, OF m1, THEN conjunct1, THEN iffD2, OF h1])
  moreover have "is_numeric_token ''12345''"
    by (rule numeric_token_classification [THEN mp, OF m2, THEN conjunct1, THEN iffD2, OF h2])
  moreover have "\<not> is_numeric_token ''-5.00''"
    by (rule numeric_token_classification
               [THEN mp, OF m3, THEN conjunct2, THEN mp, OF h3, THEN conjunct1])
  moreover have "\<not> is_numeric_token ''1,000''"
    by (rule numeric_token_classification
               [THEN mp, OF m4, THEN conjunct2, THEN mp, OF h4, THEN conjunct1])
  moreover have "\<not> is_numeric_token ''2e5'' \<and> ''2e5'' \<notin> set (numeric_tokens line)"
    by (rule numeric_token_classification [THEN mp, OF m5, THEN conjunct2, THEN mp, OF h5])
  ultimately show ?thesis unfolding line_def by (intro conjI) simp_all
qed

section \<open>Reading a line item\<close>

lemma py_float_numeric:
  assumes "is_numeric_token t" and "CHR 0x0A \<notin> set t"
  shows "\<exists>v. py_float t = Inr v \<and> 0 \<le> v"
proof -
  have d: "takeWhile is_digit t \<noteq> []"
    and r: "dropWhile is_digit t = []
              \<or> (\<exists>u. dropWhile is_digit t = CHR ''.'' # u \<and> list_all is_digit u)"
    using assms numeric_shape by simp_all
  from r show ?thesis
  proof
    assume e: "dropWhile is_digit t = []"
    have "py_float t = Inr (of_nat (dec_val (takeWhile is_digit t)))"
      unfolding py_float_def Let_def e using d by simp
    then show ?thesis by simp
  next
    assume "\<exists>u. dropWhile is_digit t = CHR ''.'' # u \<and> list_all is_digit u"
    then obtain u where e: "dropWhile is_digit t = CHR ''.'' # u" and u: "list_all is_digit u"
      by auto
    have "py_float t = Inr (of_nat (dec_val (takeWhile is_digit t @ u)) / 10 ^ length u)"
      unfolding py_float_def Let_def e using d u by simp
    then show ?thesis by simp
  qed
qed

lemma numeric_tokens_member:
  assumes "t \<in> set (numeric_tokens line)"
  shows "is_numeric_token t \<and> CHR 0x0A \<notin> set t"
proof -
  have "t \<in> set (py_split line)" and n: "is_numeric_token t"
    using assms by (simp_all add: numeric_tokens_def)
  then have "\<forall>c \<in> set t. \<not> is_space c" using py_split_token by blast
  then have "CHR 0x0A \<notin> set t" using newline_is_space by blast
  then show ?thesis using n by simp
qed

lemma numeric_tokens_float:
  assumes "i < length (numeric_tokens line)"
  shows "\<exists>v. py_float (numeric_tokens line ! i) = Inr v \<and> 0 \<le> v"
proof -
  have "numeric_tokens line ! i \<in> set (numeric_tokens line)" using assms by simp
  then have "is_numeric_token (numeric_tokens line ! i) \<and> CHR 0x0A \<notin> set (numeric_tokens line ! i)"
    by (rule numeric_tokens_member)
  then show ?thesis using py_float_numeric by blast
qed

lemma py_int_nonneg:
  assumes "0 \<le> q"
  shows "py_int q = (if DBL_OVERFLOW \<le> q then Inl OverflowError else Inr \<lfloor>q\<rfloor>)"
  using assms by (simp add: py_int_def)

lemma try_body_numbers:
  assumes "4 \<le> length (numeric_tokens line)"
  shows "\<exists>q p. py_float (numeric_tokens line ! 1) = Inr q \<and> 0 \<le> q
            \<and> py_float (numeric_tokens line ! 3) = Inr p \<and> 0 \<le> p
            \<and> try_body db code (numeric_tokens line) =
                (if DBL_OVERFLOW \<le> q then Inl OverflowError
                 else Inr \<lparr>item_code = code, quantity = \<lfloor>q\<rfloor>, unit_price = p,
                           line_total = py_round2 (of_int \<lfloor>q\<rfloor> * p),
                           gl_code = fst (lookup_gl db code),
                           gl_description = snd (lookup_gl db code)\<rparr>)"
proof -
  obtain q where q: "py_float (numeric_tokens line ! 1) = Inr q" "0 \<le> q"
    using numeric_tokens_float [of 1 line] assms by auto
  obtain p where p: "py_float (numeric_tokens line ! 3) = Inr p" "0 \<le> p"
    using numeric_tokens_float [of 3 line] assms by auto
  have i1: "py_index (numeric_tokens line) 1 = Inr (numeric_tokens line ! 1)"
    and i3: "py_index (numeric_tokens line) 3 = Inr (numeric_tokens line ! 3)"
    using assms by (simp_all add: py_index_def)
  have "try_body db code (numeric_tokens line) =
                (if DBL_OVERFLOW \<le> q then Inl OverflowError
                 else Inr \<lparr>item_code = code, quantity = \<lfloor>q\<rfloor>, unit_price = p,
                           line_total = py_round2 (of_int \<lfloor>q\<rfloor> * p),
                           gl_code = fst (lookup_gl db code),
                           gl_description = snd (lookup_gl db code)\<rparr>)"
    using i1 i3 q(1) p(1) by (simp add: try_body_def py_int_nonneg [OF q(2)])
  then show ?thesis using q p by blast
qed

lemma process_line_numbers:
  assumes "line_item_code line = Some code" and "4 \<le> length (numeric_tokens line)"
  shows "\<exists>q p. py_float (numeric_tokens line ! 1) = Inr q \<and> 0 \<le> q
            \<and> py_float (numeric_tokens line ! 3) = Inr p \<and> 0 \<le> p
            \<and> process_line db line =
                (if DBL_OVERFLOW \<le> q then Inl OverflowError
                 else Inr (Appended \<lparr>item_code = code, quantity = \<lfloor>q\<rfloor>, unit_price = p,
                           line_total = py_round2 (of_int \<lfloor>q\<rfloor> * p),
                           gl_code = fst (lookup_gl db code),
                           gl_description = snd (lookup_gl db code)\<rparr>))"
proof -
  obtain q p where qp: "py_float (numeric_tokens line ! 1) = Inr q" "0 \<le> q"
       "py_float (numeric_tokens line ! 3) = Inr p" "0 \<le> p"
       "try_body db code (numeric_tokens line) =
                (if DBL_OVERFLOW \<le> q then Inl OverflowError
                 else Inr \<lparr>item_code = code, quantity = \<lfloor>q\<rfloor>, unit_price = p,
                           line_total = py_round2 (of_int \<lfloor>q\<rfloor> * p),
                           gl_code = fst (lookup_gl db code),
                           gl_description = snd (lookup_gl db code)\<rparr>)"
    using try_body_numbers [OF assms(2), of db code] by blast
  have nl: "\<not> length (numeric_tokens line) < 4" using assms(2) by simp
  have "process_line db line =
                (if DBL_OVERFLOW \<le> q then Inl OverflowError
                 else Inr (Appended \<lparr>item_code = code, quantity = \<lfloor>q\<rfloor>, unit_price = p,
                           line_total = py_round2 (of_int \<lfloor>q\<rfloor> * p),
                           gl_code = fst (lookup_gl db code),
                           gl_description = snd (lookup_gl db code)\<rparr>))"
    using nl qp(5) assms(1) by (simp add: process_line_def Let_def)
  then show ?thesis using qp(1-4) by blast
qed

lemma parse_failure_unreachable:
  "process_line db line \<noteq> Inr (ParseFailed e)"
proof (cases "line_item_code line")
  case None
  then show ?thesis by (simp add: process_line_def)
next
  case (Some code)
  show ?thesis
  proof (cases "length (numeric_tokens line) < 4")
    case True
    then show ?thesis using Some by (simp add: process_line_def)
  next
    case False
    then have "4 \<le> length (numeric_tokens line)" by simp
    from process_line_numbers [OF Some this, of db]
    obtain q it where "process_line db line = (if DBL_OVERFLOW \<le> q then Inl OverflowError
                 else Inr (Appended it))" by blast
    then show ?thesis by (cases "DBL_OVERFLOW \<le> q") simp_all
  qed
qed


lemma overflow_line:
  "line_item_code ''12345 1000000000000000000000000000000000000000000000000000000000000000000000000000000000000000000000000000000000000000000000000000000000000000000000000000000000000000000000000000000000000000000000000000000000000000000000000000000000000000000000000000000000000000000000000000000000000000000000000000000000000000000000 1 1'' = Some ''00012345''
   \<and> numeric_tokens ''12345 1000000000000000000000000000000000000000000000000000000000000000000000000000000000000000000000000000000000000000000000000000000000000000000000000000000000000000000000000000000000000000000000000000000000000000000000000000000000000000000000000000000000000000000000000000000000000000000000000000000000000000000000 1 1'' = [''12345'', ''1000000000000000000000000000000000000000000000000000000000000000000000000000000000000000000000000000000000000000000000000000000000000000000000000000000000000000000000000000000000000000000000000000000000000000000000000000000000000000000000000000000000000000000000000000000000000000000000000000000000000000000000'', ''1'', ''1'']
   \<and> process_line db ''12345 1000000000000000000000000000000000000000000000000000000000000000000000000000000000000000000000000000000000000000000000000000000000000000000000000000000000000000000000000000000000000000000000000000000000000000000000000000000000000000000000000000000000000000000000000000000000000000000000000000000000000000000000 1 1'' = Inl OverflowError"
proof -
  have c: "line_item_code ''12345 1000000000000000000000000000000000000000000000000000000000000000000000000000000000000000000000000000000000000000000000000000000000000000000000000000000000000000000000000000000000000000000000000000000000000000000000000000000000000000000000000000000000000000000000000000000000000000000000000000000000000000000000 1 1'' = Some ''00012345''" by code_simp
  have t: "numeric_tokens ''12345 1000000000000000000000000000000000000000000000000000000000000000000000000000000000000000000000000000000000000000000000000000000000000000000000000000000000000000000000000000000000000000000000000000000000000000000000000000000000000000000000000000000000000000000000000000000000000000000000000000000000000000000000 1 1'' = [''12345'', ''1000000000000000000000000000000000000000000000000000000000000000000000000000000000000000000000000000000000000000000000000000000000000000000000000000000000000000000000000000000000000000000000000000000000000000000000000000000000000000000000000000000000000000000000000000000000000000000000000000000000000000000000'', ''1'', ''1'']" by code_simp
  have f: "py_float ''1000000000000000000000000000000000000000000000000000000000000000000000000000000000000000000000000000000000000000000000000000000000000000000000000000000000000000000000000000000000000000000000000000000000000000000000000000000000000000000000000000000000000000000000000000000000000000000000000000000000000000000000'' = Inr (10 ^ 309)"
    by (simp add: py_float_def is_digit_def dec_val_def digit_val_def)
  have p: "process_line db ''12345 1000000000000000000000000000000000000000000000000000000000000000000000000000000000000000000000000000000000000000000000000000000000000000000000000000000000000000000000000000000000000000000000000000000000000000000000000000000000000000000000000000000000000000000000000000000000000000000000000000000000000000000000 1 1'' = Inl OverflowError"
    by (simp add: process_line_def c t try_body_def py_index_def f py_int_def DBL_OVERFLOW_def)
  show ?thesis using c t p by (intro conjI)
qed




text \<open>
  Claim C8, at an input where the code fails. The second line of this one-page document
  has four numbers, all accepted by the patterns, and its quantity is too large for a
  double. Reading the quantity raises \<^verbatim>\<open>OverflowError\<close>; the exception leaves the page loop
  and the function returns without a report, although the first line is a good item.
  Lemma \<open>parse_failure_unreachable\<close> above is the part of the claim that holds: neither
  \<^verbatim>\<open>IndexError\<close> nor \<^verbatim>\<open>ValueError\<close> is ever caught at line 147.
\<close>

theorem quantity_overflow_aborts_document:
  "process_tdl_invoice []
     [''00012345   10   0.00   2.50   25.00'' @ [CHR 0x0A] @ ''12345 1000000000000000000000000000000000000000000000000000000000000000000000000000000000000000000000000000000000000000000000000000000000000000000000000000000000000000000000000000000000000000000000000000000000000000000000000000000000000000000000000000000000000000000000000000000000000000000000000000000000000000000000 1 1'']
   = Inl OverflowError"
proof -
  define page where "page = ''00012345   10   0.00   2.50   25.00'' @ [CHR 0x0A] @ ''12345 1000000000000000000000000000000000000000000000000000000000000000000000000000000000000000000000000000000000000000000000000000000000000000000000000000000000000000000000000000000000000000000000000000000000000000000000000000000000000000000000000000000000000000000000000000000000000000000000000000000000000000000000 1 1''"
  have sl: "split_lines page = [''00012345   10   0.00   2.50   25.00'', ''12345 1000000000000000000000000000000000000000000000000000000000000000000000000000000000000000000000000000000000000000000000000000000000000000000000000000000000000000000000000000000000000000000000000000000000000000000000000000000000000000000000000000000000000000000000000000000000000000000000000000000000000000000000 1 1'']"
    unfolding page_def by code_simp
  have inv: "rx_search invoice_rx page = None" unfolding page_def by code_simp
  have c1: "line_item_code ''00012345   10   0.00   2.50   25.00'' = Some ''00012345''" by code_simp
  have t1: "numeric_tokens ''00012345   10   0.00   2.50   25.00''
              = [''00012345'', ''10'', ''0.00'', ''2.50'', ''25.00'']" by code_simp
  have f1: "py_float ''10'' = Inr 10"
    by (simp add: py_float_def is_digit_def dec_val_def digit_val_def)
  have f3: "py_float ''2.50'' = Inr (5 / 2)"
    by (simp add: py_float_def is_digit_def dec_val_def digit_val_def)
  have p1: "\<exists>it. process_line [] ''00012345   10   0.00   2.50   25.00'' = Inr (Appended it)"
    by (simp add: process_line_def c1 t1 try_body_def py_index_def f1 f3 py_int_def DBL_OVERFLOW_def)
  have p2: "process_line [] ''12345 1000000000000000000000000000000000000000000000000000000000000000000000000000000000000000000000000000000000000000000000000000000000000000000000000000000000000000000000000000000000000000000000000000000000000000000000000000000000000000000000000000000000000000000000000000000000000000000000000000000000000000000000 1 1'' = Inl OverflowError"
    using overflow_line [of "[]"] by blast
  obtain it where it: "process_line [] ''00012345   10   0.00   2.50   25.00'' = Inr (Appended it)"
    using p1 by blast
  have pl: "process_lines [] (split_lines page) [] = Inl OverflowError"
    unfolding sl by (simp add: it p2)
  have "process_page [] 1 0 page initial_extraction = Inl OverflowError"
    by (simp add: process_page_def inv initial_extraction_def pl)
  then have "process_tdl_invoice [] [page] = Inl OverflowError"
    by (simp add: process_tdl_invoice_def astype_str_def)
  then show ?thesis unfolding page_def by simp
qed

section \<open>The charges of the last page\<close>

lemma process_page_result:
  assumes "process_page db n i text st = Inr st'"
  shows "process_lines db (split_lines text) (items st) = Inr (items st')
     \<and> (int i \<noteq> int n - 1 \<longrightarrow>
           tariff_amount st' = tariff_amount st \<and> fuel_surcharge st' = fuel_surcharge st
           \<and> gst_hst_vat st' = gst_hst_vat st)
     \<and> (int i = int n - 1 \<longrightarrow>
           extract_amount tariff_rx text (tariff_amount st) = Inr (tariff_amount st')
           \<and> extract_fuel text (fuel_surcharge st) = Inr (fuel_surcharge st')
           \<and> extract_amount gst_rx text (gst_hst_vat st) = Inr (gst_hst_vat st'))"
proof -
  define st1 where "st1 =
        (if i = 0 \<and> (invoice_number st = None \<or> invoice_number st = Some [])
         then (case rx_search invoice_rx text of
                 Some (g, _) \<Rightarrow> st\<lparr>invoice_number := Some g\<rparr>
               | None \<Rightarrow> st)
         else st)"
  have s1: "items st1 = items st" "tariff_amount st1 = tariff_amount st"
      "fuel_surcharge st1 = fuel_surcharge st" "gst_hst_vat st1 = gst_hst_vat st"
    unfolding st1_def by (simp_all split: option.split prod.split)
  have pp: "(case process_lines db (split_lines text) (items st1) of
           Inl e \<Rightarrow> Inl e
         | Inr its \<Rightarrow>
             if int i = int n - 1
             then (case extract_amount tariff_rx text (tariff_amount (st1\<lparr>items := its\<rparr>)) of Inl e \<Rightarrow> Inl e | Inr t \<Rightarrow>
                   case extract_fuel text (fuel_surcharge (st1\<lparr>items := its\<rparr>)) of Inl e \<Rightarrow> Inl e | Inr f \<Rightarrow>
                   case extract_amount gst_rx text (gst_hst_vat (st1\<lparr>items := its\<rparr>)) of Inl e \<Rightarrow> Inl e | Inr g \<Rightarrow>
                     Inr (st1\<lparr>items := its, tariff_amount := t, fuel_surcharge := f, gst_hst_vat := g\<rparr>))
             else Inr (st1\<lparr>items := its\<rparr>)) = Inr st'"
    using assms unfolding process_page_def st1_def [symmetric] Let_def .
  then obtain its where its: "process_lines db (split_lines text) (items st1) = Inr its"
    by (cases "process_lines db (split_lines text) (items st1)") simp_all
  show ?thesis
  proof (cases "int i = int n - 1")
    case False
    then have "st' = st1\<lparr>items := its\<rparr>" using pp its by simp
    then show ?thesis using False s1 its by simp
  next
    case True
    from pp True its obtain t f g where
      e: "extract_amount tariff_rx text (tariff_amount st1) = Inr t"
         "extract_fuel text (fuel_surcharge st1) = Inr f"
         "extract_amount gst_rx text (gst_hst_vat st1) = Inr g"
         "st' = st1\<lparr>items := its, tariff_amount := t, fuel_surcharge := f, gst_hst_vat := g\<rparr>"
      by (auto split: sum.splits)
    then show ?thesis using True s1 its by simp
  qed
qed

lemma process_pages_charges:
  assumes "process_pages db n i pages st = Inr st'" and "i + length pages = n" and "pages \<noteq> []"
  shows "extract_amount tariff_rx (last pages) (tariff_amount st) = Inr (tariff_amount st')
         \<and> extract_fuel (last pages) (fuel_surcharge st) = Inr (fuel_surcharge st')
         \<and> extract_amount gst_rx (last pages) (gst_hst_vat st) = Inr (gst_hst_vat st')"
  using assms
proof (induction pages arbitrary: i st)
  case Nil
  then show ?case by simp
next
  case (Cons t ts)
  obtain st1 where p: "process_page db n i t st = Inr st1"
    and r: "process_pages db n (Suc i) ts st1 = Inr st'"
    using Cons.prems(1) by (cases "process_page db n i t st") simp_all
  note pr = process_page_result [OF p]
  show ?case
  proof (cases ts)
    case Nil
    then have "int i = int n - 1" using Cons.prems(2) by auto
    moreover have "st' = st1" using r Nil by simp
    ultimately show ?thesis using pr Nil by simp
  next
    case (Cons u us)
    then have ne: "int i \<noteq> int n - 1" using Cons.prems(2) by auto
    have "Suc i + length ts = n" using Cons.prems(2) by simp
    moreover have "ts \<noteq> []" using Cons by simp
    ultimately have "extract_amount tariff_rx (last ts) (tariff_amount st1) = Inr (tariff_amount st')
         \<and> extract_fuel (last ts) (fuel_surcharge st1) = Inr (fuel_surcharge st')
         \<and> extract_amount gst_rx (last ts) (gst_hst_vat st1) = Inr (gst_hst_vat st')"
      using Cons.IH [OF r] by simp
    then show ?thesis using pr ne Cons by simp
  qed
qed

lemma invoice_charges:
  assumes "process_tdl_invoice table pages = Inr rep" and "pages \<noteq> []"
  shows "extract_amount tariff_rx (last pages) 0 = Inr (rep_tariff_amount rep)
         \<and> extract_fuel (last pages) 0 = Inr (rep_fuel_surcharge rep)
         \<and> extract_amount gst_rx (last pages) 0 = Inr (rep_gst_hst_vat rep)"
proof -
  obtain st where st: "process_pages (astype_str table) (length pages) 0 pages initial_extraction = Inr st"
    and rep: "rep = make_report st"
    using assms(1) unfolding process_tdl_invoice_def
    by (cases "process_pages (astype_str table) (length pages) 0 pages initial_extraction") auto
  have "extract_amount tariff_rx (last pages) (tariff_amount initial_extraction) = Inr (tariff_amount st)
         \<and> extract_fuel (last pages) (fuel_surcharge initial_extraction) = Inr (fuel_surcharge st)
         \<and> extract_amount gst_rx (last pages) (gst_hst_vat initial_extraction) = Inr (gst_hst_vat st)"
    using process_pages_charges [OF st _ assms(2)] by simp
  then show ?thesis unfolding rep by (simp add: initial_extraction_def make_report_def Let_def)
qed

text \<open>
  Claim C6. The fuel surcharge is read with the primary pattern first: when it matches,
  the number it captures is the surcharge. Only when it does not match is the alternate
  pattern tried, and without any match the value is left as it was. In a document that is
  processed to the end, the surcharge is what this gives on the text of the last page,
  starting from 0. The text \<open>Fuel Surcharge 12.50 0.00 3.75\<close> gives 3.75 by the primary
  pattern, and \<open>Fuel Surcharge 4.20\<close> gives 4.20 by the alternate one.
\<close>

theorem fuel_surcharge_fallback:
  "(rx_search fuel_primary_rx text = Some (g, r) \<longrightarrow> extract_fuel text old = py_float g)
   \<and> (rx_search fuel_primary_rx text = None \<and> rx_search fuel_alternate_rx text = Some (g, r) \<longrightarrow>
        extract_fuel text old = py_float g)
   \<and> (rx_search fuel_primary_rx text = None \<and> rx_search fuel_alternate_rx text = None \<longrightarrow>
        extract_fuel text old = Inr old)
   \<and> (process_tdl_invoice table pages = Inr rep \<and> pages \<noteq> [] \<longrightarrow>
        extract_fuel (last pages) 0 = Inr (rep_fuel_surcharge rep))
   \<and> rx_search fuel_primary_rx ''Fuel Surcharge 12.50 0.00 3.75'' = Some (''3.75'', [])
   \<and> extract_fuel ''Fuel Surcharge 12.50 0.00 3.75'' 0 = Inr (15 / 4)
   \<and> rx_search fuel_primary_rx ''Fuel Surcharge 4.20'' = None
   \<and> rx_search fuel_alternate_rx ''Fuel Surcharge 4.20'' = Some (''4.20'', [])
   \<and> extract_fuel ''Fuel Surcharge 4.20'' 0 = Inr (21 / 5)"
proof -
  have a1: "rx_search fuel_primary_rx ''Fuel Surcharge 12.50 0.00 3.75'' = Some (''3.75'', [])"
    by code_simp
  have a2: "rx_search fuel_primary_rx ''Fuel Surcharge 4.20'' = None" by code_simp
  have a3: "rx_search fuel_alternate_rx ''Fuel Surcharge 4.20'' = Some (''4.20'', [])" by code_simp
  have f1: "py_float ''3.75'' = Inr (15 / 4)"
    by (simp add: py_float_def is_digit_def dec_val_def digit_val_def)
  have f2: "py_float ''4.20'' = Inr (21 / 5)"
    by (simp add: py_float_def is_digit_def dec_val_def digit_val_def)
  have b1: "extract_fuel ''Fuel Surcharge 12.50 0.00 3.75'' 0 = Inr (15 / 4)"
    unfolding extract_fuel_def a1 using f1 by simp
  have b2: "extract_fuel ''Fuel Surcharge 4.20'' 0 = Inr (21 / 5)"
    unfolding extract_fuel_def a2 a3 using f2 by simp
  have c1: "rx_search fuel_primary_rx text = Some (g, r) \<longrightarrow> extract_fuel text old = py_float g"
    by (simp add: extract_fuel_def)
  have c2: "rx_search fuel_primary_rx text = None \<and> rx_search fuel_alternate_rx text = Some (g, r) \<longrightarrow>
        extract_fuel text old = py_float g"
    by (simp add: extract_fuel_def)
  have c3: "rx_search fuel_primary_rx text = None \<and> rx_search fuel_alternate_rx text = None \<longrightarrow>
        extract_fuel text old = Inr old"
    by (simp add: extract_fuel_def)
  have c4: "process_tdl_invoice table pages = Inr rep \<and> pages \<noteq> [] \<longrightarrow>
        extract_fuel (last pages) 0 = Inr (rep_fuel_surcharge rep)"
    using invoice_charges by blast
  show ?thesis using c1 c2 c3 c4 a1 b1 a2 a3 b2 by (intro conjI)
qed

theorem fuel_surcharge_fallback_witness:
  "(\<exists>rep. process_tdl_invoice [] [''Fuel Surcharge 12.50 0.00 3.75''] = Inr rep
          \<and> rep_fuel_surcharge rep = 15 / 4)
   \<and> (\<exists>rep. process_tdl_invoice [] [''Fuel Surcharge 4.20''] = Inr rep
          \<and> rep_fuel_surcharge rep = 21 / 5)
   \<and> (\<exists>rep. process_tdl_invoice [] [''Thank you''] = Inr rep
          \<and> rep_fuel_surcharge rep = 0)"
proof -
  have run: "\<exists>rep. process_tdl_invoice [] [tx] = Inr rep"
    if "process_lines [] (split_lines tx) [] = Inr []"
      and "\<exists>v. extract_amount tariff_rx tx 0 = Inr v"
      and "\<exists>v. extract_fuel tx 0 = Inr v"
      and "\<exists>v. extract_amount gst_rx tx 0 = Inr v" for tx
    using that
    by (auto simp: process_tdl_invoice_def process_page_def initial_extraction_def astype_str_def
         Let_def split: option.split prod.split)
  note th = fuel_surcharge_fallback
  have e1: "extract_fuel ''Fuel Surcharge 12.50 0.00 3.75'' 0 = Inr (15 / 4)"
    using th [of "[]" "[]" "[]" 0 "[]" "[]"] by blast
  have e2: "extract_fuel ''Fuel Surcharge 4.20'' 0 = Inr (21 / 5)"
    using th [of "[]" "[]" "[]" 0 "[]" "[]"] by blast
  have n1: "rx_search fuel_primary_rx ''Thank you'' = None" by code_simp
  have n2: "rx_search fuel_alternate_rx ''Thank you'' = None" by code_simp
  have e3: "extract_fuel ''Thank you'' 0 = Inr 0"
    using th [of "''Thank you''" "[]" "[]" 0 "[]" "[]"] n1 n2 by blast
  have l1: "process_lines [] (split_lines ''Fuel Surcharge 12.50 0.00 3.75'') [] = Inr []" by code_simp
  have l2: "process_lines [] (split_lines ''Fuel Surcharge 4.20'') [] = Inr []" by code_simp
  have l3: "process_lines [] (split_lines ''Thank you'') [] = Inr []" by code_simp
  have t1: "rx_search tariff_rx ''Fuel Surcharge 12.50 0.00 3.75'' = None" by code_simp
  have t2: "rx_search tariff_rx ''Fuel Surcharge 4.20'' = None" by code_simp
  have t3: "rx_search tariff_rx ''Thank you'' = None" by code_simp
  have g1: "rx_search gst_rx ''Fuel Surcharge 12.50 0.00 3.75'' = None" by code_simp
  have g2: "rx_search gst_rx ''Fuel Surcharge 4.20'' = None" by code_simp
  have g3: "rx_search gst_rx ''Thank you'' = None" by code_simp
  have ta1: "\<exists>v. extract_amount tariff_rx ''Fuel Surcharge 12.50 0.00 3.75'' 0 = Inr v"
    unfolding extract_amount_def t1 by simp
  have ta2: "\<exists>v. extract_amount tariff_rx ''Fuel Surcharge 4.20'' 0 = Inr v"
    unfolding extract_amount_def t2 by simp
  have ta3: "\<exists>v. extract_amount tariff_rx ''Thank you'' 0 = Inr v"
    unfolding extract_amount_def t3 by simp
  have ga1: "\<exists>v. extract_amount gst_rx ''Fuel Surcharge 12.50 0.00 3.75'' 0 = Inr v"
    unfolding extract_amount_def g1 by simp
  have ga2: "\<exists>v. extract_amount gst_rx ''Fuel Surcharge 4.20'' 0 = Inr v"
    unfolding extract_amount_def g2 by simp
  have ga3: "\<exists>v. extract_amount gst_rx ''Thank you'' 0 = Inr v"
    unfolding extract_amount_def g3 by simp
  have ef1: "\<exists>v. extract_fuel ''Fuel Surcharge 12.50 0.00 3.75'' 0 = Inr v"
    unfolding e1 by (rule exI [of _ "15 / 4"]) (rule refl)
  have ef2: "\<exists>v. extract_fuel ''Fuel Surcharge 4.20'' 0 = Inr v"
    unfolding e2 by (rule exI [of _ "21 / 5"]) (rule refl)
  have ef3: "\<exists>v. extract_fuel ''Thank you'' 0 = Inr v"
    unfolding e3 by (rule exI [of _ 0]) (rule refl)
  obtain r1 where r1: "process_tdl_invoice [] [''Fuel Surcharge 12.50 0.00 3.75''] = Inr r1"
    using run [OF l1 ta1 ef1 ga1] by (rule exE)
  obtain r2 where r2: "process_tdl_invoice [] [''Fuel Surcharge 4.20''] = Inr r2"
    using run [OF l2 ta2 ef2 ga2] by (rule exE)
  obtain r3 where r3: "process_tdl_invoice [] [''Thank you''] = Inr r3"
    using run [OF l3 ta3 ef3 ga3] by (rule exE)
  have "rep_fuel_surcharge r1 = 15 / 4"
    using th [of "[]" "[]" "[]" 0 "[]" "[''Fuel Surcharge 12.50 0.00 3.75'']" r1] r1 e1 by simp
  moreover have "rep_fuel_surcharge r2 = 21 / 5"
    using th [of "[]" "[]" "[]" 0 "[]" "[''Fuel Surcharge 4.20'']" r2] r2 e2 by simp
  moreover have "rep_fuel_surcharge r3 = 0"
    using th [of "[]" "[]" "[]" 0 "[]" "[''Thank you'']" r3] r3 e3 by simp
  ultimately show ?thesis using r1 r2 r3 by blast
qed

section \<open>Items, summary and totals\<close>

lemma process_lines_items:
  assumes "process_lines db ls acc = Inr its"
  shows "set acc \<subseteq> set its
         \<and> (\<forall>l \<in> set ls. \<forall>it. process_line db l = Inr (Appended it) \<longrightarrow> it \<in> set its)"
  using assms
proof (induction ls arbitrary: acc)
  case Nil
  then show ?case by simp
next
  case (Cons l ls)
  show ?case
  proof (cases "process_line db l")
    case (Inl e)
    then show ?thesis using Cons.prems by simp
  next
    case (Inr out)
    show ?thesis
    proof (cases "\<exists>it. out = Appended it")
      case True
      then obtain it where out: "out = Appended it" by blast
      then have "process_lines db ls (acc @ [it]) = Inr its" using Cons.prems Inr by simp
      then have "set (acc @ [it]) \<subseteq> set its
         \<and> (\<forall>l \<in> set ls. \<forall>it. process_line db l = Inr (Appended it) \<longrightarrow> it \<in> set its)"
        by (rule Cons.IH)
      then show ?thesis using Inr out by auto
    next
      case False
      then have "process_lines db ls acc = Inr its" using Cons.prems Inr by (cases out) simp_all
      then have "set acc \<subseteq> set its
         \<and> (\<forall>l \<in> set ls. \<forall>it. process_line db l = Inr (Appended it) \<longrightarrow> it \<in> set its)"
        by (rule Cons.IH)
      then show ?thesis using Inr False by auto
    qed
  qed
qed

lemma process_pages_items:
  assumes "process_pages db n i pages st = Inr st'"
  shows "set (items st) \<subseteq> set (items st')
         \<and> (\<forall>tx \<in> set pages. \<forall>l \<in> set (split_lines tx). \<forall>it.
               process_line db l = Inr (Appended it) \<longrightarrow> it \<in> set (items st'))"
  using assms
proof (induction pages arbitrary: i st)
  case Nil
  then show ?case by simp
next
  case (Cons t ts)
  obtain st1 where p: "process_page db n i t st = Inr st1"
    and r: "process_pages db n (Suc i) ts st1 = Inr st'"
    using Cons.prems(1) by (cases "process_page db n i t st") simp_all
  have pl: "process_lines db (split_lines t) (items st) = Inr (items st1)"
    using process_page_result [OF p] by simp
  note a = process_lines_items [OF pl]
  note b = Cons.IH [OF r]
  show ?case using a b by auto
qed

lemma invoice_items:
  assumes "process_tdl_invoice table pages = Inr rep"
  shows "\<forall>tx \<in> set pages. \<forall>l \<in> set (split_lines tx). \<forall>it.
           process_line (astype_str table) l = Inr (Appended it) \<longrightarrow> it \<in> set (rep_items rep)"
proof -
  obtain st where st: "process_pages (astype_str table) (length pages) 0 pages initial_extraction = Inr st"
    and rep: "rep = make_report st"
    using assms unfolding process_tdl_invoice_def
    by (cases "process_pages (astype_str table) (length pages) 0 pages initial_extraction") auto
  have "rep_items rep = items st" unfolding rep by (simp add: make_report_def Let_def)
  then show ?thesis using process_pages_items [OF st] by simp
qed

lemma map_of_dict_set: "map_of (dict_set d k v) = (map_of d)(k \<mapsto> v)"
  by (induction d) (auto simp: fun_eq_iff)



lemma summarize_snoc:
  "summarize (its @ [x]) =
     dict_set (summarize its) (gl_description x)
       (dict_get (summarize its) (gl_description x) 0 + line_total x)"
  by (simp add: summarize_def)

lemma summarize_Nil: "summarize [] = []"
  by (simp add: summarize_def)

lemma map_of_summarize:
  "map_of (summarize its) k =
     (if k \<in> set (map gl_description its)
      then Some (sum_list (map line_total (filter (\<lambda>i. gl_description i = k) its)))
      else None)"
proof (induction its rule: rev_induct)
  case Nil
  then show ?case by (simp add: summarize_Nil)
next
  case (snoc x its)
  show ?case
  proof (cases "gl_description x = k")
    case True
    have "dict_get (summarize its) k 0 = sum_list (map line_total (filter (\<lambda>i. gl_description i = k) its))"
    proof (cases "k \<in> set (map gl_description its)")
      case True
      then show ?thesis using snoc.IH by (simp add: dict_get_def)
    next
      case False
      then have "filter (\<lambda>i. gl_description i = k) its = []"
        by (auto simp: filter_empty_conv)
      then show ?thesis using snoc.IH False by (simp add: dict_get_def)
    qed
    then show ?thesis using True by (simp add: summarize_snoc map_of_dict_set)
  next
    case False
    then show ?thesis using snoc.IH by (simp add: summarize_snoc map_of_dict_set)
  qed
qed




lemma set_sorted_desc: "set (sorted_desc d) = set d"
  by (simp add: sorted_desc_def)





lemma group_in_summary:
  assumes "it \<in> set its"
  shows "(gl_description it,
          sum_list (map line_total (filter (\<lambda>i. gl_description i = gl_description it) its)))
           \<in> set (sorted_desc (summarize its))"
proof -
  have "gl_description it \<in> set (map gl_description its)" using assms by simp
  then have "map_of (summarize its) (gl_description it) =
      Some (sum_list (map line_total (filter (\<lambda>i. gl_description i = gl_description it) its)))"
    by (simp add: map_of_summarize)
  then show ?thesis unfolding set_sorted_desc by (rule map_of_SomeD)
qed


lemma process_lines_no_raise:
  assumes "process_lines db ls acc = Inr its" and "l \<in> set ls"
  shows "\<exists>out. process_line db l = Inr out"
  using assms
proof (induction ls arbitrary: acc)
  case Nil
  then show ?case by simp
next
  case (Cons a ls)
  obtain out where out: "process_line db a = Inr out"
    using Cons.prems(1) by (cases "process_line db a") simp_all
  show ?case
  proof (cases "l = a")
    case True
    then show ?thesis using out by simp
  next
    case False
    then have l: "l \<in> set ls" using Cons.prems(2) by simp
    have "\<exists>acc'. process_lines db ls acc' = Inr its"
      using Cons.prems(1) out by (cases out) auto
    then obtain acc' where "process_lines db ls acc' = Inr its" by blast
    then show ?thesis using l by (rule Cons.IH)
  qed
qed

lemma process_pages_no_raise:
  assumes "process_pages db n i pages st = Inr st'" and "tx \<in> set pages"
      and "l \<in> set (split_lines tx)"
  shows "\<exists>out. process_line db l = Inr out"
  using assms
proof (induction pages arbitrary: i st)
  case Nil
  then show ?case by simp
next
  case (Cons t ts)
  obtain st1 where p: "process_page db n i t st = Inr st1"
    and r: "process_pages db n (Suc i) ts st1 = Inr st'"
    using Cons.prems(1) by (cases "process_page db n i t st") simp_all
  have pl: "process_lines db (split_lines t) (items st) = Inr (items st1)"
    using process_page_result [OF p] by simp
  show ?case
  proof (cases "tx = t")
    case True
    then show ?thesis using process_lines_no_raise [OF pl] Cons.prems(3) by simp
  next
    case False
    then have "tx \<in> set ts" using Cons.prems(2) by simp
    then show ?thesis using Cons.IH [OF r] Cons.prems(3) by simp
  qed
qed

lemma invoice_no_raise:
  assumes "process_tdl_invoice table pages = Inr rep" and "tx \<in> set pages"
      and "l \<in> set (split_lines tx)"
  shows "\<exists>out. process_line (astype_str table) l = Inr out"
proof -
  obtain st where st: "process_pages (astype_str table) (length pages) 0 pages initial_extraction = Inr st"
    using assms(1) unfolding process_tdl_invoice_def
    by (cases "process_pages (astype_str table) (length pages) 0 pages initial_extraction") auto
  show ?thesis using process_pages_no_raise [OF st assms(2,3)] .
qed

lemma invoice_report:
  assumes "process_tdl_invoice table pages = Inr rep"
  shows "\<exists>st. rep = make_report st"
  using assms unfolding process_tdl_invoice_def
  by (cases "process_pages (astype_str table) (length pages) 0 pages initial_extraction") auto

lemma lookup_gl_absent:
  assumes "db_select db code = []"
  shows "lookup_gl db code = (NOT_FOUND, NOT_FOUND)"
  using assms by (simp add: lookup_gl_def)

lemma unmapped_line:
  assumes "line_item_code line = Some code" and "4 \<le> length (numeric_tokens line)"
      and "db_select db code = []" and "process_line db line = Inr out"
  shows "\<exists>it. out = Appended it \<and> item_code it = code
            \<and> gl_code it = NOT_FOUND \<and> gl_description it = NOT_FOUND"
proof -
  obtain q p where qp: "process_line db line =
                (if DBL_OVERFLOW \<le> q then Inl OverflowError
                 else Inr (Appended \<lparr>item_code = code, quantity = \<lfloor>q\<rfloor>, unit_price = p,
                           line_total = py_round2 (of_int \<lfloor>q\<rfloor> * p),
                           gl_code = fst (lookup_gl db code),
                           gl_description = snd (lookup_gl db code)\<rparr>))"
    using process_line_numbers [OF assms(1,2), of db] by blast
  have "\<not> DBL_OVERFLOW \<le> q" using qp assms(4) by (cases "DBL_OVERFLOW \<le> q") simp_all
  then have "out = Appended \<lparr>item_code = code, quantity = \<lfloor>q\<rfloor>, unit_price = p,
                           line_total = py_round2 (of_int \<lfloor>q\<rfloor> * p),
                           gl_code = fst (lookup_gl db code),
                           gl_description = snd (lookup_gl db code)\<rparr>"
    using qp assms(4) by simp
  then show ?thesis using lookup_gl_absent [OF assms(3)] by simp
qed

lemma single_page_run:
  assumes "process_lines (astype_str table) (split_lines tx) [] = Inr its"
      and "extract_amount tariff_rx tx 0 = Inr t"
      and "extract_fuel tx 0 = Inr f"
      and "extract_amount gst_rx tx 0 = Inr g"
  shows "\<exists>inv. process_tdl_invoice table [tx] =
           Inr (make_report \<lparr>items = its, invoice_number = inv, tariff_amount = t,
                              fuel_surcharge = f, gst_hst_vat = g\<rparr>)"
  using assms
  by (auto simp: process_tdl_invoice_def process_page_def initial_extraction_def Let_def
        split: option.split prod.split)

text \<open>
  Claim C5. A line that gives an item and whose code no row of the table has gives an item
  with \<open>NOT_FOUND\<close> as GL code and as GL description, and raises nothing. In a document
  that is processed to the end, that item is among the reported items, and the summary has
  a line \<open>NOT_FOUND\<close> whose amount is the sum of the line totals of the items with that
  description, this one included.
\<close>

theorem unmapped_item_kept:
  "(line_item_code line = Some code \<and> 4 \<le> length (numeric_tokens line)
      \<and> py_float (numeric_tokens line ! 1) = Inr q \<and> q < DBL_OVERFLOW
      \<and> db_select db code = [] \<longrightarrow>
      (\<exists>it. process_line db line = Inr (Appended it) \<and> item_code it = code
            \<and> gl_code it = NOT_FOUND \<and> gl_description it = NOT_FOUND))
   \<and> (process_tdl_invoice table pages = Inr rep \<and> tx \<in> set pages \<and> line \<in> set (split_lines tx)
      \<and> line_item_code line = Some code \<and> 4 \<le> length (numeric_tokens line)
      \<and> db_select (astype_str table) code = [] \<longrightarrow>
      (\<exists>it \<in> set (rep_items rep).
            process_line (astype_str table) line = Inr (Appended it)
            \<and> item_code it = code \<and> gl_code it = NOT_FOUND \<and> gl_description it = NOT_FOUND
            \<and> (NOT_FOUND,
                sum_list (map line_total
                  (filter (\<lambda>i. gl_description i = NOT_FOUND) (rep_items rep))))
               \<in> set (rep_summary rep)))"
proof (intro conjI impI)
  assume a: "line_item_code line = Some code \<and> 4 \<le> length (numeric_tokens line)
      \<and> py_float (numeric_tokens line ! 1) = Inr q \<and> q < DBL_OVERFLOW
      \<and> db_select db code = []"
  then have lc: "line_item_code line = Some code" and n4: "4 \<le> length (numeric_tokens line)"
    and fq: "py_float (numeric_tokens line ! 1) = Inr q" and q: "q < DBL_OVERFLOW"
    and ab: "db_select db code = []" by blast+
  obtain q' p where qp: "py_float (numeric_tokens line ! 1) = Inr q'"
     "process_line db line =
                (if DBL_OVERFLOW \<le> q' then Inl OverflowError
                 else Inr (Appended \<lparr>item_code = code, quantity = \<lfloor>q'\<rfloor>, unit_price = p,
                           line_total = py_round2 (of_int \<lfloor>q'\<rfloor> * p),
                           gl_code = fst (lookup_gl db code),
                           gl_description = snd (lookup_gl db code)\<rparr>))"
    using process_line_numbers [OF lc n4, of db] by blast
  have "q' = q" using qp(1) fq by simp
  then have "\<exists>out. process_line db line = Inr out" using qp(2) q by simp
  then obtain out where out: "process_line db line = Inr out" by blast
  from unmapped_line [OF lc n4 ab out]
  show "\<exists>it. process_line db line = Inr (Appended it) \<and> item_code it = code
            \<and> gl_code it = NOT_FOUND \<and> gl_description it = NOT_FOUND"
    using out by blast
next
  assume a: "process_tdl_invoice table pages = Inr rep \<and> tx \<in> set pages \<and> line \<in> set (split_lines tx)
      \<and> line_item_code line = Some code \<and> 4 \<le> length (numeric_tokens line)
      \<and> db_select (astype_str table) code = []"
  then have run: "process_tdl_invoice table pages = Inr rep" and tx: "tx \<in> set pages"
    and ln: "line \<in> set (split_lines tx)"
    and lc: "line_item_code line = Some code" and n4: "4 \<le> length (numeric_tokens line)"
    and ab: "db_select (astype_str table) code = []" by blast+
  obtain out where out: "process_line (astype_str table) line = Inr out"
    using invoice_no_raise [OF run tx ln] by blast
  obtain it where it: "out = Appended it" "item_code it = code"
      "gl_code it = NOT_FOUND" "gl_description it = NOT_FOUND"
    using unmapped_line [OF lc n4 ab out] by blast
  have mem: "it \<in> set (rep_items rep)"
    using invoice_items [OF run] tx ln out it(1) by blast
  obtain st where rep: "rep = make_report st" using invoice_report [OF run] by blast
  have ri: "rep_items rep = items st" and rs: "rep_summary rep = sorted_desc (summarize (items st))"
    unfolding rep by (simp_all add: make_report_def Let_def)
  have "(gl_description it,
          sum_list (map line_total (filter (\<lambda>i. gl_description i = gl_description it) (rep_items rep))))
           \<in> set (rep_summary rep)"
    unfolding rs using group_in_summary [of it "items st"] mem ri by simp
  then have "(NOT_FOUND,
                sum_list (map line_total
                  (filter (\<lambda>i. gl_description i = NOT_FOUND) (rep_items rep))))
               \<in> set (rep_summary rep)"
    unfolding it(4) .
  then show "\<exists>it \<in> set (rep_items rep).
            process_line (astype_str table) line = Inr (Appended it)
            \<and> item_code it = code \<and> gl_code it = NOT_FOUND \<and> gl_description it = NOT_FOUND
            \<and> (NOT_FOUND,
                sum_list (map line_total
                  (filter (\<lambda>i. gl_description i = NOT_FOUND) (rep_items rep))))
               \<in> set (rep_summary rep)"
    using mem out it by blast
qed


lemma line_eval:
  assumes "line_item_code line = Some code" and "numeric_tokens line = ts" and "4 \<le> length ts"
      and "py_float (ts ! 1) = Inr q" and "py_float (ts ! 3) = Inr p"
      and "0 \<le> q" and "q < DBL_OVERFLOW"
  shows "process_line db line =
           Inr (Appended \<lparr>item_code = code, quantity = \<lfloor>q\<rfloor>, unit_price = p,
                           line_total = py_round2 (of_int \<lfloor>q\<rfloor> * p),
                           gl_code = fst (lookup_gl db code),
                           gl_description = snd (lookup_gl db code)\<rparr>)"
  using assms by (simp add: process_line_def try_body_def py_index_def py_int_def Let_def)

lemma scenario_line:
  "process_line db ''00012345   10   0.00   2.50   25.00'' =
     Inr (Appended \<lparr>item_code = ''00012345'', quantity = 10, unit_price = 5 / 2,
                     line_total = 25,
                     gl_code = fst (lookup_gl db ''00012345''),
                     gl_description = snd (lookup_gl db ''00012345'')\<rparr>)"
proof -
  have c: "line_item_code ''00012345   10   0.00   2.50   25.00'' = Some ''00012345''"
    by code_simp
  have t: "numeric_tokens ''00012345   10   0.00   2.50   25.00''
            = [''00012345'', ''10'', ''0.00'', ''2.50'', ''25.00'']" by code_simp
  have f1: "py_float ([''00012345'', ''10'', ''0.00'', ''2.50'', ''25.00''] ! 1) = Inr 10"
    by (simp add: py_float_def is_digit_def dec_val_def digit_val_def)
  have f3: "py_float ([''00012345'', ''10'', ''0.00'', ''2.50'', ''25.00''] ! 3) = Inr (5 / 2)"
    by (simp add: py_float_def is_digit_def dec_val_def digit_val_def)
  have q: "(10 :: rat) < DBL_OVERFLOW" by (simp add: DBL_OVERFLOW_def)
  have "process_line db ''00012345   10   0.00   2.50   25.00'' =
           Inr (Appended \<lparr>item_code = ''00012345'', quantity = \<lfloor>10 :: rat\<rfloor>, unit_price = 5 / 2,
                           line_total = py_round2 (of_int \<lfloor>10 :: rat\<rfloor> * (5 / 2)),
                           gl_code = fst (lookup_gl db ''00012345''),
                           gl_description = snd (lookup_gl db ''00012345'')\<rparr>)"
    by (rule line_eval [OF c t _ f1 f3 _ q]) simp_all
  then show ?thesis by (simp add: py_round2_def)
qed

lemma no_charges:
  "extract_amount tariff_rx ''00012345   10   0.00   2.50   25.00'' 0 = Inr 0
   \<and> extract_fuel ''00012345   10   0.00   2.50   25.00'' 0 = Inr 0
   \<and> extract_amount gst_rx ''00012345   10   0.00   2.50   25.00'' 0 = Inr 0"
proof -
  have "rx_search tariff_rx ''00012345   10   0.00   2.50   25.00'' = None" by code_simp
  moreover have "rx_search fuel_primary_rx ''00012345   10   0.00   2.50   25.00'' = None"
    by code_simp
  moreover have "rx_search fuel_alternate_rx ''00012345   10   0.00   2.50   25.00'' = None"
    by code_simp
  moreover have "rx_search gst_rx ''00012345   10   0.00   2.50   25.00'' = None" by code_simp
  ultimately show ?thesis by (simp add: extract_amount_def extract_fuel_def)
qed

theorem unmapped_item_kept_witness:
  "\<exists>rep. process_tdl_invoice [] [''00012345   10   0.00   2.50   25.00''] = Inr rep
      \<and> (\<exists>it \<in> set (rep_items rep).
            item_code it = ''00012345'' \<and> gl_code it = NOT_FOUND \<and> gl_description it = NOT_FOUND)
      \<and> (NOT_FOUND, 25) \<in> set (rep_summary rep)"
proof -
  define line where "line = ''00012345   10   0.00   2.50   25.00''"
  define it0 where "it0 = \<lparr>item_code = ''00012345'', quantity = 10, unit_price = 5 / 2,
                     line_total = 25, gl_code = NOT_FOUND, gl_description = NOT_FOUND\<rparr>"
  have sl: "split_lines line = [line]" unfolding line_def by code_simp
  have ab: "db_select (astype_str []) ''00012345'' = []"
    by (simp add: db_select_def astype_str_def)
  have pl: "process_line (astype_str []) line = Inr (Appended it0)"
    unfolding line_def it0_def by (simp add: scenario_line lookup_gl_absent [OF ab])
  have pls: "process_lines (astype_str []) (split_lines line) [] = Inr [it0]"
    unfolding sl by (simp add: pl)
  obtain inv where run: "process_tdl_invoice [] [line] =
           Inr (make_report \<lparr>items = [it0], invoice_number = inv, tariff_amount = 0,
                              fuel_surcharge = 0, gst_hst_vat = 0\<rparr>)"
    using single_page_run [OF pls] no_charges unfolding line_def by blast
  define rep where "rep = make_report \<lparr>items = [it0], invoice_number = inv, tariff_amount = 0,
                              fuel_surcharge = 0, gst_hst_vat = 0\<rparr>"
  have ri: "rep_items rep = [it0]" unfolding rep_def by (simp add: make_report_def Let_def)
  have c: "line_item_code line = Some ''00012345''" unfolding line_def by code_simp
  have n: "4 \<le> length (numeric_tokens line)" unfolding line_def by code_simp
  have h: "process_tdl_invoice [] [line] = Inr rep \<and> line \<in> set [line]
      \<and> line \<in> set (split_lines line)
      \<and> line_item_code line = Some ''00012345'' \<and> 4 \<le> length (numeric_tokens line)
      \<and> db_select (astype_str []) ''00012345'' = []"
    using run c n ab unfolding rep_def sl by simp
  from unmapped_item_kept [THEN conjunct2, THEN mp, OF h]
  obtain it where it: "it \<in> set (rep_items rep)" "item_code it = ''00012345''"
     "gl_code it = NOT_FOUND" "gl_description it = NOT_FOUND"
     "(NOT_FOUND, sum_list (map line_total
                  (filter (\<lambda>i. gl_description i = NOT_FOUND) (rep_items rep))))
               \<in> set (rep_summary rep)"
    by blast
  have "sum_list (map line_total (filter (\<lambda>i. gl_description i = NOT_FOUND) (rep_items rep))) = 25"
    unfolding ri by (simp add: it0_def)
  then have "(NOT_FOUND, 25) \<in> set (rep_summary rep)" using it(5) by simp
  then show ?thesis using run it(1-4) unfolding rep_def line_def by blast
qed





lemma first_seen_snoc:
  "rev (remdups (rev (ks @ [k]))) =
     (if k \<in> set ks then rev (remdups (rev ks)) else rev (remdups (rev ks)) @ [k])"
  by simp











end
